theory Spec2Isabelle
  imports Main "HOL-Library.AList"
begin

section \<open>JavaScript values and objects\<close>

text \<open>
  The credentials of a brand are JSON documents (\<open>JSON.parse\<close> of a form field, stored in
  a JSONB column). A JSON value is modelled with the truthiness JavaScript gives it; a
  numeric value is an integer here.
\<close>

datatype jsval =
    JNull
  | JBool bool
  | JNum int
  | JStr string
  | JArr "jsval list"
  | JObj "(string \<times> jsval) list"

text \<open>An object is its list of properties, in insertion order, with distinct keys.\<close>

type_synonym object = "(string \<times> jsval) list"

text \<open>\<open>o.k\<close>: \<open>None\<close> is JavaScript's \<open>undefined\<close>.\<close>

definition get_prop :: "object \<Rightarrow> string \<Rightarrow> jsval option" where
  "get_prop obj k = map_of obj k"

text \<open>\<open>o.k = v\<close>: an existing property keeps its place, a new one is appended.\<close>

definition set_prop :: "string \<Rightarrow> jsval \<Rightarrow> object \<Rightarrow> object" where
  "set_prop k v obj = AList.update k v obj"

fun truthy_val :: "jsval \<Rightarrow> bool" where
  "truthy_val JNull = False"
| "truthy_val (JBool b) = b"
| "truthy_val (JNum n) = (n \<noteq> 0)"
| "truthy_val (JStr s) = (s \<noteq> [])"
| "truthy_val (JArr xs) = True"
| "truthy_val (JObj ps) = True"

fun truthy :: "jsval option \<Rightarrow> bool" where
  "truthy None = False"
| "truthy (Some v) = truthy_val v"

text \<open>\<open>a || b\<close>: the left operand when it is truthy, the right one otherwise.\<close>

definition js_or :: "jsval option \<Rightarrow> jsval option \<Rightarrow> jsval option" where
  "js_or a b = (if truthy a then a else b)"

text \<open>Truthiness of a string or \<open>null\<close> (a token read from the store).\<close>

fun truthy_str :: "string option \<Rightarrow> bool" where
  "truthy_str None = False"
| "truthy_str (Some s) = (s \<noteq> [])"

subsection \<open>Template strings and dates\<close>

text \<open>The decimal digits of a natural number, as \<open>`${n}`\<close> renders an id.\<close>

function string_of_nat :: "nat \<Rightarrow> string" where
  "string_of_nat n =
     (if n < 10 then [''0123456789'' ! n]
      else string_of_nat (n div 10) @ [''0123456789'' ! (n mod 10)])"
  by pat_completeness auto
termination
  by (relation "measure (\<lambda>n. n)") auto

declare string_of_nat.simps [simp del]

text \<open>A number left-padded with zeros to a width, as the fields of an ISO date are.\<close>

definition pad :: "nat \<Rightarrow> int \<Rightarrow> string" where
  "pad w n =
     (let s = string_of_nat (nat n) in replicate (w - length s) (CHR ''0'') @ s)"

text \<open>
  The proleptic Gregorian date of a day number counted from 1970-01-01:
  (year, month, day).
\<close>

definition civil_from_days :: "int \<Rightarrow> int \<times> int \<times> int" where
  "civil_from_days days =
     (let z = days + 719468;
          era = z div 146097;
          doe = z mod 146097;
          yoe = (doe - doe div 1460 + doe div 36524 - doe div 146096) div 365;
          y = yoe + era * 400;
          doy = doe - (365 * yoe + yoe div 4 - yoe div 100);
          mp = (5 * doy + 2) div 153;
          d = doy - (153 * mp + 2) div 5 + 1;
          m = (if mp < 10 then mp + 3 else mp - 9)
      in ((if m \<le> 2 then y + 1 else y), m, d))"

text \<open>The year of an ISO date: four digits, or a sign and six digits outside 0..9999.\<close>

definition iso_year :: "int \<Rightarrow> string" where
  "iso_year y =
     (if 0 \<le> y \<and> y \<le> 9999 then pad 4 y
      else if y < 0 then ''-'' @ pad 6 (- y)
      else ''+'' @ pad 6 y)"

text \<open>
  \<open>new Date(ms).toISOString()\<close>: the UTC date and time of a time value in milliseconds
  since the epoch. A time value beyond 8.64e15 in magnitude is an invalid date, for which
  the call throws a RangeError (\<open>None\<close>).
\<close>

definition toISOString :: "int \<Rightarrow> string option" where
  "toISOString ms =
     (if ms < - 8640000000000000 \<or> 8640000000000000 < ms then None
      else
        let (y, m, d) = civil_from_days (ms div 86400000);
            t = ms mod 86400000
        in Some (iso_year y @ ''-'' @ pad 2 m @ ''-'' @ pad 2 d @ ''T''
             @ pad 2 (t div 3600000) @ '':'' @ pad 2 (t div 60000 mod 60) @ '':''
             @ pad 2 (t div 1000 mod 60) @ ''.'' @ pad 3 (t mod 1000) @ ''Z''))"

section \<open>Data model\<close>

text \<open>
  A brand row, with the columns the token refresh reads. A credentials column holds an
  object or is \<open>NULL\<close> (\<open>None\<close>).
\<close>

record brand =
  brand_id :: nat
  instagramCredentials :: "object option"
  facebookCredentials :: "object option"

text \<open>A post row; \<open>scheduleAt\<close> is a time in milliseconds since the epoch, or \<open>NULL\<close>.\<close>

record post =
  post_id :: nat
  brandId :: nat
  status :: string
  scheduleAt :: "int option"
  lastError :: "string option"

text \<open>The query parameters of the token exchange request.\<close>

record exchange_params =
  grant_type :: string
  client_id :: "jsval option"
  client_secret :: "jsval option"
  fb_exchange_token :: string

text \<open>
  The body of the exchange response (\<open>r.data\<close>): an object with an optional
  \<open>access_token\<close> string and an optional \<open>expires_in\<close> number of seconds.
\<close>

record exchange_data =
  access_token :: "string option"
  expires_in :: "int option"

text \<open>The outcome of \<open>axios.get\<close>: it rejects with an error message, or resolves.\<close>

datatype exchange_result = Exchange_failed string | Exchange_ok exchange_data

text \<open>The outcome of \<open>axios.post\<close> to the publishing webhook.\<close>

datatype webhook_result = Webhook_failed string | Webhook_ok

text \<open>
  The fields of the publishing form that the refresh feeds: the ids, the two credential
  objects and the global token (the plain text columns of the post and the brand are
  left out).
\<close>

record payload =
  form_brand_id :: nat
  form_post_id :: nat
  form_instagram :: object
  form_facebook :: object
  form_token :: "string option"

text \<open>
  The state the code works on. \<open>refreshLocks\<close> is the module's lock object: a lock key is
  mapped to the promise registered for it. A promise is its index in \<open>promises\<close>, where the
  flag tells whether it is resolved. \<open>token_rows\<close> is the table of the global token, rows
  (id, token) in the order \<open>findFirst\<close> reads them, and \<open>token_seq\<close> the next value of the
  sequence behind its \<open>SERIAL\<close> id. The two logs record the network calls issued.
\<close>

record state =
  refreshLocks :: "string \<Rightarrow> nat option"
  promises :: "bool list"
  token_rows :: "(nat \<times> string) list"
  token_seq :: nat
  posts :: "post list"
  brands :: "brand list"
  exchange_calls :: "exchange_params list"
  webhook_calls :: "payload list"

text \<open>How a call ends: it returns a value, throws an error with a message, or stays
  suspended on the promise of a refresh in flight that nothing in the run resolves.\<close>

datatype 'a outcome = Return 'a | Throw string | Pending

section \<open>The global token store\<close>

text \<open>
  \<open>getGlobalInstagramFacebookToken\<close>: the token of the first row, \<open>null\<close> when the table is
  empty, and \<open>null\<close> too when the query fails (\<open>ok\<close> is false): the error is caught.
\<close>

definition getGlobalInstagramFacebookToken :: "bool \<Rightarrow> state \<Rightarrow> string option" where
  "getGlobalInstagramFacebookToken ok st =
     (if \<not> ok then None
      else case token_rows st of [] \<Rightarrow> None | row # _ \<Rightarrow> Some (snd row))"

text \<open>
  The upsert \<open>{ where: { id: 1 }, update: { token }, create: { token } }\<close>: the row with
  id 1 gets the token when there is one; otherwise a row is inserted, its id drawn from
  the sequence.
\<close>

definition upsert_token :: "string \<Rightarrow> state \<Rightarrow> state" where
  "upsert_token token st =
     (case map_of (token_rows st) 1 of
        Some old \<Rightarrow>
          st\<lparr>token_rows := map (\<lambda>row. if fst row = 1 then (fst row, token) else row) (token_rows st)\<rparr>
      | None \<Rightarrow>
          st\<lparr>token_rows := token_rows st @ [(token_seq st, token)],
             token_seq := Suc (token_seq st)\<rparr>)"

text \<open>
  \<open>setGlobalInstagramFacebookToken\<close>: the upsert; a storage error (\<open>ok\<close> is false) is logged
  and thrown again, and leaves the table as it was.
\<close>

definition setGlobalInstagramFacebookToken :: "bool \<Rightarrow> string \<Rightarrow> state \<Rightarrow> string + state" where
  "setGlobalInstagramFacebookToken ok token st =
     (if ok then Inr (upsert_token token st) else Inl ''storage error'')"

text \<open>The table right after the migration that creates it: no row, the sequence at 1.\<close>

definition fresh_store :: "state \<Rightarrow> bool" where
  "fresh_store st = (token_rows st = [] \<and> token_seq st = 1)"

text \<open>
  A sequence of \<open>setGlobalInstagramFacebookToken\<close> calls, each with its token and whether
  the storage accepts it; a call that throws leaves the state to the next one.
\<close>

fun set_tokens :: "(bool \<times> string) list \<Rightarrow> state \<Rightarrow> state" where
  "set_tokens [] st = st"
| "set_tokens (c # cs) st =
     (case setGlobalInstagramFacebookToken (fst c) (snd c) st of
        Inl err \<Rightarrow> set_tokens cs st
      | Inr st' \<Rightarrow> set_tokens cs st')"

section \<open>The token refresh\<close>

subsection \<open>The pieces of \<open>refreshBrandToken\<close>\<close>

text \<open>The provider parameter, with its default when the argument is left out.\<close>

definition provider_of :: "string option \<Rightarrow> string" where
  "provider_of arg = (case arg of None \<Rightarrow> ''instagram'' | Some p \<Rightarrow> p)"

text \<open>\<open>brand[credsKey]\<close>: the facebook column for \<open>'facebook'\<close>, the instagram one otherwise.\<close>

definition credsRaw :: "brand \<Rightarrow> string \<Rightarrow> object option" where
  "credsRaw b provider =
     (if provider = ''facebook'' then facebookCredentials b else instagramCredentials b)"

definition appId :: "object \<Rightarrow> jsval option" where
  "appId creds =
     js_or (js_or (js_or (get_prop creds ''app_id'') (get_prop creds ''appId''))
              (get_prop creds ''client_id''))
       (get_prop creds ''clientId'')"

definition appSecret :: "object \<Rightarrow> jsval option" where
  "appSecret creds =
     js_or (js_or (js_or (get_prop creds ''app_secret'') (get_prop creds ''appSecret''))
              (get_prop creds ''client_secret''))
       (get_prop creds ''clientSecret'')"

definition lockKey :: "brand \<Rightarrow> string \<Rightarrow> string" where
  "lockKey b provider = string_of_nat (brand_id b) @ ''_'' @ provider"

text \<open>\<open>if (tok) creds.access_token = tok\<close>.\<close>

definition stamp_token :: "string option \<Rightarrow> object \<Rightarrow> object" where
  "stamp_token tok creds =
     (case tok of
        None \<Rightarrow> creds
      | Some t \<Rightarrow> if t = [] then creds else set_prop ''access_token'' (JStr t) creds)"

text \<open>Whether awaiting a promise goes on: the promise exists and is resolved.\<close>

definition settled :: "state \<Rightarrow> nat \<Rightarrow> bool" where
  "settled st p = (p < length (promises st) \<and> promises st ! p)"

text \<open>
  \<open>refreshLocks[lockKey] = new Promise(...)\<close>: a new, unresolved promise is registered
  for the key.
\<close>

definition register_lock :: "string \<Rightarrow> state \<Rightarrow> state" where
  "register_lock key st =
     st\<lparr>refreshLocks := (refreshLocks st)(key \<mapsto> length (promises st)),
        promises := promises st @ [False]\<rparr>"

text \<open>The \<open>finally\<close> block: \<open>resolveLock(); delete refreshLocks[lockKey]\<close>.\<close>

definition release_lock :: "string \<Rightarrow> nat \<Rightarrow> state \<Rightarrow> state" where
  "release_lock key p st =
     st\<lparr>refreshLocks := (refreshLocks st)(key := None),
        promises := (promises st)[p := True]\<rparr>"

text \<open>
  The local variables of a call that holds the lock: its copy of the credentials, the
  lock key and the promise that \<open>resolveLock\<close> resolves, the app id and secret.
\<close>

record frame =
  creds :: object
  key :: string
  resolveLock :: nat
  app_id :: "jsval option"
  app_secret :: "jsval option"

definition params_of :: "frame \<Rightarrow> string \<Rightarrow> exchange_params" where
  "params_of f globalToken =
     \<lparr>grant_type = ''fb_exchange_token'', client_id = app_id f,
      client_secret = app_secret f, fb_exchange_token = globalToken\<rparr>"

text \<open>\<open>axios.get\<close> is called: the request is recorded.\<close>

definition issue_exchange :: "frame \<Rightarrow> string \<Rightarrow> state \<Rightarrow> state" where
  "issue_exchange f globalToken st =
     st\<lparr>exchange_calls := exchange_calls st @ [params_of f globalToken]\<rparr>"

subsection \<open>A call on its own\<close>

text \<open>
  What the awaited operations of one call do: whether the reads and the write of the
  global token go through, what the exchange answers, and the time \<open>Date.now()\<close> gives.
\<close>

record refresh_env =
  global_read_ok :: bool
  exchange :: exchange_result
  global_write_ok :: bool
  fallback_read_ok :: bool
  now :: int

text \<open>
  The \<open>try\<close> block, run to its end: whether it threw, the credentials copy as it stands
  then, and the state.
\<close>

definition refresh_try :: "refresh_env \<Rightarrow> frame \<Rightarrow> state \<Rightarrow> bool \<times> object \<times> state" where
  "refresh_try env f st =
     (case getGlobalInstagramFacebookToken (global_read_ok env) st of
        None \<Rightarrow> (False, creds f, st)
      | Some globalToken \<Rightarrow>
          if globalToken = [] then (False, creds f, st)
          else
            let st1 = issue_exchange f globalToken st in
            (case exchange env of
               Exchange_failed msg \<Rightarrow> (True, creds f, st1)
             | Exchange_ok data \<Rightarrow>
                 (case access_token data of
                    None \<Rightarrow> (False, creds f, st1)
                  | Some t \<Rightarrow>
                      if t = [] then (False, creds f, st1)
                      else
                        (case setGlobalInstagramFacebookToken (global_write_ok env) t st1 of
                           Inl err \<Rightarrow> (True, creds f, st1)
                         | Inr st2 \<Rightarrow>
                             let creds1 = set_prop ''access_token'' (JStr t) (creds f) in
                             (case expires_in data of
                                None \<Rightarrow> (False, creds1, st2)
                              | Some n \<Rightarrow>
                                  if n = 0 then (False, creds1, st2)
                                  else
                                    (case toISOString (now env + n * 1000) of
                                       None \<Rightarrow> (True, creds1, st2)
                                     | Some expires_at \<Rightarrow>
                                         (False, set_prop ''expires_at'' (JStr expires_at) creds1,
                                          st2)))))))"

text \<open>The \<open>try\<close>, the \<open>catch\<close> when it threw, and the \<open>finally\<close>.\<close>

definition refresh_locked :: "refresh_env \<Rightarrow> frame \<Rightarrow> state \<Rightarrow> object \<times> state" where
  "refresh_locked env f st =
     (case refresh_try env f st of
        (thrown, creds1, st1) \<Rightarrow>
          ((if thrown
            then stamp_token (getGlobalInstagramFacebookToken (fallback_read_ok env) st1) creds1
            else creds1),
           release_lock (key f) (resolveLock f) st1))"

text \<open>
  \<open>refreshBrandToken(brand, provider)\<close>, run with no other call in between. Where a
  refresh for the key is in flight the call awaits its promise, and goes on only when
  that promise is resolved.
\<close>

definition refreshBrandToken ::
  "brand \<Rightarrow> string option \<Rightarrow> refresh_env \<Rightarrow> state \<Rightarrow> object option outcome \<times> state" where
  "refreshBrandToken b arg env st =
     (let provider = provider_of arg in
      case credsRaw b provider of
        None \<Rightarrow> (Return None, st)
      | Some raw \<Rightarrow>
          if \<not> truthy (appId raw) \<or> \<not> truthy (appSecret raw) then (Return (Some raw), st)
          else
            (case refreshLocks st (lockKey b provider) of
               Some p \<Rightarrow>
                 if settled st p
                 then (Return (Some (stamp_token
                         (getGlobalInstagramFacebookToken (global_read_ok env) st) raw)), st)
                 else (Pending, st)
             | None \<Rightarrow>
                 (case refresh_locked env
                         \<lparr>creds = raw, key = lockKey b provider,
                          resolveLock = length (promises st),
                          app_id = appId raw, app_secret = appSecret raw\<rparr>
                         (register_lock (lockKey b provider) st) of
                    (creds', st') \<Rightarrow> (Return (Some creds'), st'))))"

subsection \<open>Calls that run interleaved\<close>

text \<open>
  The code of a call runs without interruption from one \<open>await\<close> to the next; other
  calls run while it is suspended. A suspended call is the \<open>await\<close> it stands at, with
  its local variables:
  \<^item> \<open>Await_lock\<close>: \<open>await refreshLocks[lockKey]\<close>, on the promise found under the key;
  \<^item> \<open>Await_token_after\<close>: the read of the global token after that wait;
  \<^item> \<open>Await_global_token\<close>: the read of the global token that opens the \<open>try\<close> block;
  \<^item> \<open>Await_exchange\<close>: \<open>await axios.get(...)\<close>;
  \<^item> \<open>Await_set_token\<close>: \<open>await setGlobalInstagramFacebookToken(data.access_token)\<close>, with
    the token and \<open>data.expires_in\<close>;
  \<^item> \<open>Await_cur_token\<close>: the read of the global token in the \<open>catch\<close> block;
  \<^item> \<open>Returned\<close>: the call is over, with its result (\<open>None\<close> is \<open>null\<close>).
\<close>

datatype task =
    Await_lock nat object
  | Await_token_after object
  | Await_global_token frame
  | Await_exchange frame
  | Await_set_token frame string "int option"
  | Await_cur_token frame
  | Returned "object option"

text \<open>What ends an \<open>await\<close>: the awaited operation is over, with its outcome.\<close>

datatype event =
    Lock_released
  | Token_read bool
  | Exchange_done exchange_result
  | Token_written bool

text \<open>The call itself: the code up to the first \<open>await\<close>.\<close>

definition call :: "brand \<Rightarrow> string option \<Rightarrow> state \<Rightarrow> task \<times> state" where
  "call b arg st =
     (let provider = provider_of arg in
      case credsRaw b provider of
        None \<Rightarrow> (Returned None, st)
      | Some raw \<Rightarrow>
          if \<not> truthy (appId raw) \<or> \<not> truthy (appSecret raw) then (Returned (Some raw), st)
          else
            (case refreshLocks st (lockKey b provider) of
               Some p \<Rightarrow> (Await_lock p raw, st)
             | None \<Rightarrow>
                 (Await_global_token
                    \<lparr>creds = raw, key = lockKey b provider,
                     resolveLock = length (promises st),
                     app_id = appId raw, app_secret = appSecret raw\<rparr>,
                  register_lock (lockKey b provider) st)))"

text \<open>Which event can end the \<open>await\<close> of a suspended call.\<close>

fun enabled :: "event \<Rightarrow> task \<Rightarrow> state \<Rightarrow> bool" where
  "enabled Lock_released (Await_lock p c) st = settled st p"
| "enabled (Token_read ok) (Await_token_after c) st = True"
| "enabled (Token_read ok) (Await_global_token f) st = True"
| "enabled (Exchange_done r) (Await_exchange f) st = True"
| "enabled (Token_written ok) (Await_set_token f t e) st = True"
| "enabled (Token_read ok) (Await_cur_token f) st = True"
| "enabled ev t st = False"

text \<open>The return of a call that holds the lock: the \<open>finally\<close> block runs.\<close>

definition finish :: "frame \<Rightarrow> object \<Rightarrow> state \<Rightarrow> task \<times> state" where
  "finish f result st = (Returned (Some result), release_lock (key f) (resolveLock f) st)"

text \<open>
  The code from one \<open>await\<close> to the next (or to the return), at the time \<open>t_now\<close>. A read
  or a write of the token table takes effect when its \<open>await\<close> ends.
\<close>

fun resume :: "int \<Rightarrow> event \<Rightarrow> task \<Rightarrow> state \<Rightarrow> task \<times> state" where
  "resume t_now Lock_released (Await_lock p c) st = (Await_token_after c, st)"
| "resume t_now (Token_read ok) (Await_token_after c) st =
     (Returned (Some (stamp_token (getGlobalInstagramFacebookToken ok st) c)), st)"
| "resume t_now (Token_read ok) (Await_global_token f) st =
     (case getGlobalInstagramFacebookToken ok st of
        None \<Rightarrow> finish f (creds f) st
      | Some globalToken \<Rightarrow>
          if globalToken = [] then finish f (creds f) st
          else (Await_exchange f, issue_exchange f globalToken st))"
| "resume t_now (Exchange_done r) (Await_exchange f) st =
     (case r of
        Exchange_failed msg \<Rightarrow> (Await_cur_token f, st)
      | Exchange_ok data \<Rightarrow>
          (case access_token data of
             None \<Rightarrow> finish f (creds f) st
           | Some t \<Rightarrow>
               if t = [] then finish f (creds f) st
               else (Await_set_token f t (expires_in data), st)))"
| "resume t_now (Token_written ok) (Await_set_token f t e) st =
     (case setGlobalInstagramFacebookToken ok t st of
        Inl err \<Rightarrow> (Await_cur_token f, st)
      | Inr st2 \<Rightarrow>
          let creds1 = set_prop ''access_token'' (JStr t) (creds f) in
          (case e of
             None \<Rightarrow> finish f creds1 st2
           | Some n \<Rightarrow>
               if n = 0 then finish f creds1 st2
               else
                 (case toISOString (t_now + n * 1000) of
                    None \<Rightarrow> (Await_cur_token (f\<lparr>creds := creds1\<rparr>), st2)
                  | Some expires_at \<Rightarrow>
                      finish f (set_prop ''expires_at'' (JStr expires_at) creds1) st2)))"
| "resume t_now (Token_read ok) (Await_cur_token f) st =
     finish f (stamp_token (getGlobalInstagramFacebookToken ok st) (creds f)) st"
| "resume t_now ev t st = (t, st)"

text \<open>
  One step of a set of calls in flight: one of them is resumed by an event that can end
  its \<open>await\<close>. The events come from the environment; \<open>allowed\<close> says which ones it
  can give.
\<close>

inductive step ::
  "(event \<Rightarrow> bool) \<Rightarrow> task list \<times> state \<Rightarrow> task list \<times> state \<Rightarrow> bool"
  for allowed :: "event \<Rightarrow> bool" where
  resumed:
    "allowed ev \<Longrightarrow> i < length ts \<Longrightarrow> enabled ev (ts ! i) st \<Longrightarrow>
     resume t_now ev (ts ! i) st = (t', st') \<Longrightarrow>
     step allowed (ts, st) (ts[i := t'], st')"

text \<open>An environment that can give any event.\<close>

definition any_event :: "event \<Rightarrow> bool" where
  "any_event ev = True"

text \<open>
  An environment where the reads and the writes of the token table go through, and the
  exchange fails or answers with a non-empty \<open>access_token\<close>.
\<close>

fun reliable :: "event \<Rightarrow> bool" where
  "reliable Lock_released = True"
| "reliable (Token_read ok) = ok"
| "reliable (Token_written ok) = ok"
| "reliable (Exchange_done (Exchange_failed msg)) = True"
| "reliable (Exchange_done (Exchange_ok data)) = truthy_str (access_token data)"

text \<open>
  One step of the process: a call in flight is resumed, a new call comes in, or another
  request writes the global token.
\<close>

inductive process_step :: "task list \<times> state \<Rightarrow> task list \<times> state \<Rightarrow> bool" where
  goes_on: "step any_event (ts, st) (ts', st') \<Longrightarrow> process_step (ts, st) (ts', st')"
| comes_in: "call b arg st = (t, st') \<Longrightarrow> process_step (ts, st) (ts @ [t], st')"
| writes: "process_step (ts, st) (ts, upsert_token token st)"

text \<open>
  One step of the calls for one brand and provider that run together: a call in flight is
  resumed, a further call for the brand and provider comes in while a refresh is in
  flight for the lock key, or another request (a refresh under another key, the brand
  form) writes the global token. \<open>written\<close> says which tokens other requests can write
  while the calls run.
\<close>

inductive concurrent_step ::
  "brand \<Rightarrow> string option \<Rightarrow> (string \<Rightarrow> bool) \<Rightarrow> (event \<Rightarrow> bool) \<Rightarrow>
   task list \<times> state \<Rightarrow> task list \<times> state \<Rightarrow> bool"
  for b :: brand and arg :: "string option" and written :: "string \<Rightarrow> bool"
    and allowed :: "event \<Rightarrow> bool" where
  resumes:
    "step allowed (ts, st) (ts', st') \<Longrightarrow>
     concurrent_step b arg written allowed (ts, st) (ts', st')"
| joins:
    "refreshLocks st (lockKey b (provider_of arg)) = Some p \<Longrightarrow> call b arg st = (t, st') \<Longrightarrow>
     concurrent_step b arg written allowed (ts, st) (ts @ [t], st')"
| writes:
    "written token \<Longrightarrow>
     concurrent_step b arg written allowed (ts, st) (ts, upsert_token token st)"

text \<open>Other requests can write any token, or none.\<close>

definition any_token :: "string \<Rightarrow> bool" where
  "any_token token = True"

definition no_token :: "string \<Rightarrow> bool" where
  "no_token token = False"

text \<open>\<open>n\<close> calls for the same brand and provider made in a row, none resumed in between.\<close>

fun launch :: "brand \<Rightarrow> string option \<Rightarrow> nat \<Rightarrow> state \<Rightarrow> task list \<times> state" where
  "launch b arg 0 st = ([], st)"
| "launch b arg (Suc n) st =
     (case call b arg st of
        (t, st1) \<Rightarrow> (case launch b arg n st1 of (ts, st2) \<Rightarrow> (t # ts, st2)))"

text \<open>
  A schedule is a list of moves: a call is resumed, at a time, by an event, a further
  call comes in, or another request writes a token. Run step by step, it gives the state
  it leads to, when each of its moves is possible.
\<close>

datatype move = Resume nat int event | Join | Write string

fun run_schedule ::
  "brand \<Rightarrow> string option \<Rightarrow> move list \<Rightarrow> task list \<times> state \<Rightarrow> (task list \<times> state) option" where
  "run_schedule b arg [] sys = Some sys"
| "run_schedule b arg (Resume i t_now ev # rest) (ts, st) =
     (if i < length ts \<and> enabled ev (ts ! i) st
      then (case resume t_now ev (ts ! i) st of
              (t', st') \<Rightarrow> run_schedule b arg rest (ts[i := t'], st'))
      else None)"
| "run_schedule b arg (Join # rest) (ts, st) =
     (case refreshLocks st (lockKey b (provider_of arg)) of
        None \<Rightarrow> None
      | Some p \<Rightarrow>
          (case call b arg st of (t, st') \<Rightarrow> run_schedule b arg rest (ts @ [t], st')))"
| "run_schedule b arg (Write token # rest) (ts, st) =
     run_schedule b arg rest (ts, upsert_token token st)"

text \<open>
  The events of a schedule are ones the environment can give, and the tokens it writes
  ones that other requests can write.
\<close>

fun within :: "(string \<Rightarrow> bool) \<Rightarrow> (event \<Rightarrow> bool) \<Rightarrow> move \<Rightarrow> bool" where
  "within written allowed (Resume i t_now ev) = allowed ev"
| "within written allowed Join = True"
| "within written allowed (Write token) = written token"

text \<open>The call holds the lock of a key, with a promise: it is between registering the
  lock and its \<open>finally\<close> block.\<close>

fun holds :: "task \<Rightarrow> (string \<times> nat) option" where
  "holds (Await_global_token f) = Some (key f, resolveLock f)"
| "holds (Await_exchange f) = Some (key f, resolveLock f)"
| "holds (Await_set_token f t e) = Some (key f, resolveLock f)"
| "holds (Await_cur_token f) = Some (key f, resolveLock f)"
| "holds t = None"

fun returned :: "task \<Rightarrow> bool" where
  "returned (Returned r) = True"
| "returned t = False"

text \<open>The number of \<open>await\<close>s a call can still go through.\<close>

fun remaining :: "task \<Rightarrow> nat" where
  "remaining (Await_lock p c) = 2"
| "remaining (Await_token_after c) = 1"
| "remaining (Await_global_token f) = 4"
| "remaining (Await_exchange f) = 3"
| "remaining (Await_set_token f t e) = 2"
| "remaining (Await_cur_token f) = 1"
| "remaining (Returned r) = 0"

text \<open>The exchange requests a call that holds the lock has issued.\<close>

fun issued :: "task \<Rightarrow> nat" where
  "issued (Await_exchange f) = 1"
| "issued (Await_set_token f t e) = 1"
| "issued (Await_cur_token f) = 1"
| "issued t = 0"

text \<open>The token table holds no row, or the one row with id 1.\<close>

definition single_row :: "state \<Rightarrow> bool" where
  "single_row st = (token_rows st = [] \<or> (\<exists>g. token_rows st = [(1, g)]))"

subsection \<open>The states of a launch\<close>

text \<open>
  A call that found the lock taken for the credentials \<open>raw\<close>: it waits on the promise
  \<open>p\<close>, reads the token after the wait, or has returned an object.
\<close>

definition follower :: "object \<Rightarrow> nat \<Rightarrow> task \<Rightarrow> bool" where
  "follower raw p w =
     (w = Await_lock p raw \<or> w = Await_token_after raw \<or> (\<exists>c. w = Returned (Some c)))"

text \<open>
  What holds of calls that run together, whatever the environment does. Either the first
  call holds the lock of the key with the promise \<open>p\<close>, which is registered and not
  resolved, all the others wait on it, and the exchange log has grown by what the first
  call has issued; or the lock is free again, the promise is resolved, every call has
  found the lock taken, and the log has grown by one request at most; or there is no call
  at all.
\<close>

definition launched :: "string \<Rightarrow> nat \<Rightarrow> object \<Rightarrow> nat \<Rightarrow> task list \<times> state \<Rightarrow> bool" where
  "launched k p raw base sys =
     (case sys of
        (ts, st) \<Rightarrow>
          (\<exists>t rest. ts = t # rest \<and> holds t = Some (k, p) \<and> refreshLocks st k = Some p
              \<and> p < length (promises st) \<and> \<not> settled st p
              \<and> (\<forall>w \<in> set rest. w = Await_lock p raw)
              \<and> length (exchange_calls st) = base + issued t)
          \<or> (refreshLocks st k = None \<and> settled st p \<and> (\<forall>w \<in> set ts. follower raw p w)
              \<and> length (exchange_calls st) \<le> base + 1)
          \<or> (ts = [] \<and> refreshLocks st k = None \<and> length (exchange_calls st) = base))"

text \<open>
  What holds of the lock object of a process: every entry is held by a call in flight,
  with the promise registered for it.
\<close>

definition owned :: "task list \<times> state \<Rightarrow> bool" where
  "owned sys = (case sys of (ts, st) \<Rightarrow>
     (\<forall>k p. refreshLocks st k = Some p \<longrightarrow> (\<exists>i < length ts. holds (ts ! i) = Some (k, p))))"

text \<open>The \<open>access_token\<close> that stamping the global token of a state on \<open>raw\<close> gives.\<close>

definition expected_token :: "object \<Rightarrow> state \<Rightarrow> jsval option" where
  "expected_token raw st =
     get_prop (stamp_token (getGlobalInstagramFacebookToken True st) raw) ''access_token''"

text \<open>
  What holds of one of these calls in a reliable environment: while it holds the lock
  its copy is \<open>raw\<close> until the token is written, a token is in the table once it has
  issued the exchange, and from the \<open>catch\<close> block on its copy is one that a stamp of the
  global token brings to the expected \<open>access_token\<close>; what it returns carries that token.
\<close>

fun agrees :: "object \<Rightarrow> state \<Rightarrow> task \<Rightarrow> bool" where
  "agrees raw st (Await_global_token f) = (creds f = raw)"
| "agrees raw st (Await_exchange f) = (creds f = raw \<and> token_rows st \<noteq> [])"
| "agrees raw st (Await_set_token f t e) = (creds f = raw \<and> token_rows st \<noteq> [] \<and> t \<noteq> [])"
| "agrees raw st (Await_cur_token f) =
     (get_prop (stamp_token (getGlobalInstagramFacebookToken True st) (creds f)) ''access_token''
        = expected_token raw st)"
| "agrees raw st (Returned r) =
     (\<exists>c. r = Some c \<and> get_prop c ''access_token'' = expected_token raw st)"
| "agrees raw st t = True"

definition agreed :: "object \<Rightarrow> task list \<times> state \<Rightarrow> bool" where
  "agreed raw sys = (case sys of (ts, st) \<Rightarrow> single_row st \<and> (\<forall>w \<in> set ts. agrees raw st w))"

text \<open>A call on its own, resumed by the events its environment gives, for at most
  \<open>k\<close> \<open>await\<close>s.\<close>

definition event_of :: "refresh_env \<Rightarrow> task \<Rightarrow> event" where
  "event_of env t =
     (case t of
        Await_lock p c \<Rightarrow> Lock_released
      | Await_token_after c \<Rightarrow> Token_read (global_read_ok env)
      | Await_global_token f \<Rightarrow> Token_read (global_read_ok env)
      | Await_exchange f \<Rightarrow> Exchange_done (exchange env)
      | Await_set_token f t e \<Rightarrow> Token_written (global_write_ok env)
      | Await_cur_token f \<Rightarrow> Token_read (fallback_read_ok env)
      | Returned r \<Rightarrow> Lock_released)"

fun run_alone :: "nat \<Rightarrow> refresh_env \<Rightarrow> task \<times> state \<Rightarrow> task \<times> state" where
  "run_alone 0 env sys = sys"
| "run_alone (Suc k) env (t, st) =
     (if enabled (event_of env t) t st
      then run_alone k env (resume (now env) (event_of env t) t st)
      else (t, st))"

definition outcome_of :: "task \<Rightarrow> object option outcome" where
  "outcome_of t = (case t of Returned r \<Rightarrow> Return r | _ \<Rightarrow> Pending)"

section \<open>Delivery and the dispatch loop\<close>

text \<open>\<open>prisma.post.findUnique\<close> and \<open>prisma.brand.findUnique\<close> by id.\<close>

definition find_post :: "state \<Rightarrow> nat \<Rightarrow> post option" where
  "find_post st pid = List.find (\<lambda>p. post_id p = pid) (posts st)"

definition find_brand :: "state \<Rightarrow> nat \<Rightarrow> brand option" where
  "find_brand st bid = List.find (\<lambda>b. brand_id b = bid) (brands st)"

text \<open>\<open>prisma.post.update({ where: { id }, data })\<close>.\<close>

definition update_post :: "nat \<Rightarrow> (post \<Rightarrow> post) \<Rightarrow> state \<Rightarrow> state" where
  "update_post pid change st =
     st\<lparr>posts := map (\<lambda>p. if post_id p = pid then change p else p) (posts st)\<rparr>"

text \<open>
  What the awaited operations of one delivery do: those of the two refreshes, the read
  of the global token for the form, and the answer of the publishing webhook.
\<close>

record send_env =
  instagram_env :: refresh_env
  facebook_env :: refresh_env
  token_read_ok :: bool
  webhook :: webhook_result

text \<open>
  The credentials of one provider for the form: a copy of the stored ones (an empty
  object when there are none), replaced by the refreshed ones when the brand has
  credentials and the refresh returns an object. The refresh runs inside a
  \<open>try\<close>/\<open>catch\<close>: an error is caught and logged.
\<close>

definition refresh_for_form ::
  "brand \<Rightarrow> string \<Rightarrow> object option \<Rightarrow> refresh_env \<Rightarrow> state \<Rightarrow> object outcome \<times> state" where
  "refresh_for_form b provider stored env st =
     (case stored of
        None \<Rightarrow> (Return [], st)
      | Some c \<Rightarrow>
          (case refreshBrandToken b (Some provider) env st of
             (Return (Some refreshed), st') \<Rightarrow> (Return refreshed, st')
           | (Return None, st') \<Rightarrow> (Return c, st')
           | (Throw msg, st') \<Rightarrow> (Return c, st')
           | (Pending, st') \<Rightarrow> (Pending, st')))"

text \<open>The \<open>try\<close> block at the end: the webhook call, and the status written after it.\<close>

definition deliver :: "nat \<Rightarrow> payload \<Rightarrow> webhook_result \<Rightarrow> state \<Rightarrow> unit outcome \<times> state" where
  "deliver postId form result st =
     (let st1 = st\<lparr>webhook_calls := webhook_calls st @ [form]\<rparr> in
      case result of
        Webhook_ok \<Rightarrow> (Return (), update_post postId (\<lambda>p. p\<lparr>status := ''sent''\<rparr>) st1)
      | Webhook_failed msg \<Rightarrow>
          (Throw msg,
           update_post postId (\<lambda>p. p\<lparr>status := ''failed'', lastError := Some msg\<rparr>) st1))"

text \<open>
  \<open>sendPostToN8N(postId)\<close>, run with no other call in between. Reading a field of a
  brand that is not there throws a TypeError. Filling the form is taken to succeed.
\<close>

definition sendPostToN8N :: "nat \<Rightarrow> send_env \<Rightarrow> state \<Rightarrow> unit outcome \<times> state" where
  "sendPostToN8N postId env st =
     (case find_post st postId of
        None \<Rightarrow> (Throw ''Post not found'', st)
      | Some p \<Rightarrow>
          if status p \<noteq> ''approved'' \<and> status p \<noteq> ''scheduled'' then (Return (), st)
          else
            (case find_brand st (brandId p) of
               None \<Rightarrow> (Throw ''TypeError'', st)
             | Some b \<Rightarrow>
                 (case refresh_for_form b ''instagram'' (instagramCredentials b)
                         (instagram_env env) st of
                    (Return igCredentials, st1) \<Rightarrow>
                      (case refresh_for_form b ''facebook'' (facebookCredentials b)
                              (facebook_env env) st1 of
                         (Return fbCredentials, st2) \<Rightarrow>
                           deliver postId
                             \<lparr>form_brand_id = brand_id b, form_post_id = post_id p,
                              form_instagram = igCredentials, form_facebook = fbCredentials,
                              form_token =
                                getGlobalInstagramFacebookToken (token_read_ok env) st2\<rparr>
                             (webhook env) st2
                       | (Throw msg, st2) \<Rightarrow> (Throw msg, st2)
                       | (Pending, st2) \<Rightarrow> (Pending, st2))
                  | (Throw msg, st1) \<Rightarrow> (Throw msg, st1)
                  | (Pending, st1) \<Rightarrow> (Pending, st1))))"

text \<open>
  The query of a dispatch tick: \<open>status: 'scheduled', scheduleAt: { lte: new Date() }\<close>.
  A row whose \<open>scheduleAt\<close> is \<open>NULL\<close> does not match.
\<close>

definition duePosts :: "int \<Rightarrow> state \<Rightarrow> post list" where
  "duePosts t_now st =
     filter (\<lambda>p. status p = ''scheduled'' \<and>
                 (case scheduleAt p of None \<Rightarrow> False | Some t \<Rightarrow> t \<le> t_now))
       (posts st)"

text \<open>The loop over the posts found: an error of one delivery is caught and logged.\<close>

fun dispatchLoop :: "(nat \<Rightarrow> send_env) \<Rightarrow> post list \<Rightarrow> state \<Rightarrow> unit outcome \<times> state" where
  "dispatchLoop envs [] st = (Return (), st)"
| "dispatchLoop envs (p # ps) st =
     (case sendPostToN8N (post_id p) (envs (post_id p)) st of
        (Pending, st') \<Rightarrow> (Pending, st')
      | (Return u, st') \<Rightarrow> dispatchLoop envs ps st'
      | (Throw msg, st') \<Rightarrow> dispatchLoop envs ps st')"

definition dispatchTick :: "int \<Rightarrow> (nat \<Rightarrow> send_env) \<Rightarrow> state \<Rightarrow> unit outcome \<times> state" where
  "dispatchTick t_now envs st = dispatchLoop envs (duePosts t_now st) st"

section \<open>Examples\<close>

text \<open>
  A brand with complete instagram credentials, the state of a process with nothing in
  flight whose store holds a global token, and an environment where everything works.
\<close>

definition ex_creds :: object where
  "ex_creds =
     [(''client_id'', JStr ''1''), (''client_secret'', JStr ''s''), (''access_token'', JStr ''old'')]"

definition ex_brand :: brand where
  "ex_brand = \<lparr>brand_id = 7, instagramCredentials = Some ex_creds, facebookCredentials = None\<rparr>"

text \<open>A brand whose instagram credentials have an app id and an empty app secret.\<close>

definition ex_partial :: brand where
  "ex_partial =
     \<lparr>brand_id = 8,
      instagramCredentials = Some [(''client_id'', JStr ''1''), (''app_secret'', JStr [])],
      facebookCredentials = None\<rparr>"

text \<open>Three posts: one scheduled and due at time 5, a draft, one scheduled for time 9.\<close>

definition ex_post :: post where
  "ex_post =
     \<lparr>post_id = 3, brandId = 7, status = ''scheduled'', scheduleAt = Some 5, lastError = None\<rparr>"

definition ex_draft :: post where
  "ex_draft =
     \<lparr>post_id = 4, brandId = 7, status = ''draft'', scheduleAt = Some 5, lastError = None\<rparr>"

definition ex_later :: post where
  "ex_later =
     \<lparr>post_id = 5, brandId = 7, status = ''scheduled'', scheduleAt = Some 9, lastError = None\<rparr>"

definition ex_posts :: "post list" where
  "ex_posts = [ex_post, ex_draft, ex_later]"

definition ex_state :: state where
  "ex_state =
     \<lparr>refreshLocks = (\<lambda>k. None), promises = [], token_rows = [(1, ''global-old'')],
      token_seq = 2, posts = ex_posts, brands = [ex_brand], exchange_calls = [],
      webhook_calls = []\<rparr>"

definition ex_env :: refresh_env where
  "ex_env =
     \<lparr>global_read_ok = True,
      exchange = Exchange_ok \<lparr>access_token = Some ''global-new'', expires_in = Some 3600\<rparr>,
      global_write_ok = True, fallback_read_ok = True, now = 0\<rparr>"

definition ex_send_env :: send_env where
  "ex_send_env =
     \<lparr>instagram_env = ex_env, facebook_env = ex_env, token_read_ok = True,
      webhook = Webhook_ok\<rparr>"

text \<open>The webhook fails for post 3 and answers for every other post.\<close>

definition ex_envs :: "nat \<Rightarrow> send_env" where
  "ex_envs pid = (if pid = 3 then ex_send_env\<lparr>webhook := Webhook_failed ''boom''\<rparr> else ex_send_env)"

text \<open>
  Four schedules for calls on \<open>ex_brand\<close>. In the first, two calls are launched
  together and the exchange answers without a token. In the second, a second call comes
  in while the first awaits the exchange, and everything works. In the third the
  exchange fails, and the schedule ends with the call in its \<open>catch\<close> block. In the
  fourth everything works for two calls launched together, and another request writes
  the global token between the return of the first call and the read of the second.
\<close>

definition ex_race :: "move list" where
  "ex_race =
     [Resume 0 0 (Token_read True),
      Resume 0 0 (Exchange_done (Exchange_ok \<lparr>access_token = None, expires_in = None\<rparr>)),
      Resume 1 0 Lock_released,
      Resume 1 0 (Token_read True)]"

definition ex_smooth :: "move list" where
  "ex_smooth =
     [Resume 0 0 (Token_read True),
      Join,
      Resume 0 0 (Exchange_done
                    (Exchange_ok \<lparr>access_token = Some ''global-new'', expires_in = Some 3600\<rparr>)),
      Resume 0 0 (Token_written True),
      Resume 1 0 Lock_released,
      Resume 1 0 (Token_read True)]"

definition ex_failing :: "move list" where
  "ex_failing =
     [Resume 0 0 (Token_read True),
      Resume 0 0 (Exchange_done (Exchange_failed ''timeout''))]"

definition ex_overwritten :: "move list" where
  "ex_overwritten =
     [Resume 0 0 (Token_read True),
      Resume 0 0 (Exchange_done
                    (Exchange_ok \<lparr>access_token = Some ''global-new'', expires_in = None\<rparr>)),
      Resume 0 0 (Token_written True),
      Write ''other'',
      Resume 1 0 Lock_released,
      Resume 1 0 (Token_read True)]"

section \<open>Basic facts\<close>

lemma string_of_nat_small: "n < 10 \<Longrightarrow> string_of_nat n = [''0123456789'' ! n]"
  by (subst string_of_nat.simps) simp

lemma toISOString_hour: "toISOString 3600000 = Some ''1970-01-01T01:00:00.000Z''"
  by code_simp

lemma register_lock_fields [simp]:
  "token_rows (register_lock k st) = token_rows st"
  "token_seq (register_lock k st) = token_seq st"
  "posts (register_lock k st) = posts st"
  "brands (register_lock k st) = brands st"
  "exchange_calls (register_lock k st) = exchange_calls st"
  "webhook_calls (register_lock k st) = webhook_calls st"
  "refreshLocks (register_lock k st) = (refreshLocks st)(k \<mapsto> length (promises st))"
  "promises (register_lock k st) = promises st @ [False]"
  by (simp_all add: register_lock_def)

lemma release_lock_fields [simp]:
  "token_rows (release_lock k p st) = token_rows st"
  "token_seq (release_lock k p st) = token_seq st"
  "posts (release_lock k p st) = posts st"
  "brands (release_lock k p st) = brands st"
  "exchange_calls (release_lock k p st) = exchange_calls st"
  "webhook_calls (release_lock k p st) = webhook_calls st"
  "refreshLocks (release_lock k p st) = (refreshLocks st)(k := None)"
  "promises (release_lock k p st) = (promises st)[p := True]"
  by (simp_all add: release_lock_def)

lemma issue_exchange_fields [simp]:
  "token_rows (issue_exchange f g st) = token_rows st"
  "token_seq (issue_exchange f g st) = token_seq st"
  "posts (issue_exchange f g st) = posts st"
  "brands (issue_exchange f g st) = brands st"
  "exchange_calls (issue_exchange f g st) = exchange_calls st @ [params_of f g]"
  "webhook_calls (issue_exchange f g st) = webhook_calls st"
  "refreshLocks (issue_exchange f g st) = refreshLocks st"
  "promises (issue_exchange f g st) = promises st"
  by (simp_all add: issue_exchange_def)

lemma upsert_token_fields [simp]:
  "posts (upsert_token t st) = posts st"
  "brands (upsert_token t st) = brands st"
  "exchange_calls (upsert_token t st) = exchange_calls st"
  "webhook_calls (upsert_token t st) = webhook_calls st"
  "refreshLocks (upsert_token t st) = refreshLocks st"
  "promises (upsert_token t st) = promises st"
  by (simp_all add: upsert_token_def split: option.splits)

lemma getGlobal_same_rows:
  "token_rows st' = token_rows st \<Longrightarrow>
   getGlobalInstagramFacebookToken ok st' = getGlobalInstagramFacebookToken ok st"
  by (simp add: getGlobalInstagramFacebookToken_def)

lemma upsert_single: "token_rows st = [(1, g)] \<Longrightarrow> token_rows (upsert_token t st) = [(1, t)]"
  by (simp add: upsert_token_def)

lemma get_set_prop:
  "get_prop (set_prop k v obj) k' = (if k' = k then Some v else get_prop obj k')"
  by (simp add: get_prop_def set_prop_def update_conv')

lemma toISOString_epoch: "toISOString 0 = Some ''1970-01-01T00:00:00.000Z''"
  by code_simp

lemma ex_locks_free: "refreshLocks ex_state k = None"
  by (simp add: ex_state_def)

lemma ex_lockKey: "lockKey ex_brand ''instagram'' = ''7_instagram''"
  by (simp add: lockKey_def ex_brand_def string_of_nat_small)

lemma ex_credsRaw: "credsRaw ex_brand ''instagram'' = Some ex_creds"
  by (simp add: credsRaw_def ex_brand_def)

lemma ex_complete: "truthy (appId ex_creds) \<and> truthy (appSecret ex_creds)"
  by (simp add: appId_def appSecret_def ex_creds_def get_prop_def js_or_def)

section \<open>The global token store holds one row\<close>

lemma set_tokens_single:
  "token_rows st = [(1, t)] \<Longrightarrow>
   token_rows (set_tokens cs st) = [(1, last (t # map snd (filter fst cs)))]"
proof (induction cs arbitrary: st t)
  case Nil
  then show ?case by simp
next
  case (Cons c cs)
  show ?case
  proof (cases "fst c")
    case True
    have "token_rows (upsert_token (snd c) st) = [(1, snd c)]"
      using Cons.prems by (rule upsert_single)
    from Cons.IH[OF this] True show ?thesis
      by (simp add: setGlobalInstagramFacebookToken_def)
  next
    case False
    with Cons.IH[OF Cons.prems] show ?thesis
      by (simp add: setGlobalInstagramFacebookToken_def)
  qed
qed

lemma set_tokens_fresh:
  "fresh_store st \<Longrightarrow>
   token_rows (set_tokens cs st) =
     (case filter fst cs of [] \<Rightarrow> [] | w # ws \<Rightarrow> [(1, snd (last (w # ws)))])"
proof (induction cs arbitrary: st)
  case Nil
  then show ?case by (simp add: fresh_store_def)
next
  case (Cons c cs)
  show ?case
  proof (cases "fst c")
    case True
    have "token_rows (upsert_token (snd c) st) = [(1, snd c)]"
      using Cons.prems by (simp add: upsert_token_def fresh_store_def)
    from set_tokens_single[OF this, of cs] True show ?thesis
      by (simp add: setGlobalInstagramFacebookToken_def last_map)
  next
    case False
    with Cons.IH[OF Cons.prems] show ?thesis
      by (simp add: setGlobalInstagramFacebookToken_def)
  qed
qed

text \<open>
  Claim C2. Starting from the table as the migration creates it, take any sequence of
  \<open>setGlobalInstagramFacebookToken\<close> calls and any moment in it (the first \<open>n\<close> calls are
  done). If a write has gone through by then, the table holds exactly one row: its id is
  1 and its token is the one of the last write that went through. So the first write
  creates the row with id 1 and every later one updates that row.
\<close>

theorem global_token_single_row:
  assumes "fresh_store st" and "filter fst (take n cs) \<noteq> []"
  shows "token_rows (set_tokens (take n cs) st) = [(1, snd (last (filter fst (take n cs))))]"
  using set_tokens_fresh[OF assms(1), of "take n cs"] assms(2)
  by (cases "filter fst (take n cs)") simp_all

theorem global_token_single_row_witness:
  "fresh_store (ex_state\<lparr>token_rows := [], token_seq := 1\<rparr>)
   \<and> filter fst (take 3 [(True, ''a''), (False, ''b''), (True, ''c''), (True, ''d'')]) \<noteq> []
   \<and> token_rows (set_tokens (take 3 [(True, ''a''), (False, ''b''), (True, ''c''), (True, ''d'')])
        (ex_state\<lparr>token_rows := [], token_seq := 1\<rparr>)) = [(1, ''c'')]"
proof -
  have fresh: "fresh_store (ex_state\<lparr>token_rows := [], token_seq := 1\<rparr>)"
    by (simp add: fresh_store_def)
  have some: "filter fst (take 3 [(True, ''a''), (False, ''b''), (True, ''c''), (True, ''d'')]) \<noteq> []"
    by simp
  from global_token_single_row[OF fresh some] fresh some show ?thesis
    by simp
qed

section \<open>What a refresh returns\<close>

text \<open>
  Claim C3. Take a brand whose credentials for the provider hold an app id and an app
  secret, and a call in which the exchange request was issued and failed. Then the call
  does not throw: it returns the credentials copy, stamped with the global token read
  anew when that token is present (not empty), and unchanged otherwise. The call leaves
  the token table as it was, so the token read anew is the one the store held.
\<close>

theorem refresh_exchange_failure:
  assumes "credsRaw b (provider_of arg) = Some raw"
      and "truthy (appId raw)" and "truthy (appSecret raw)"
      and "refreshBrandToken b arg env st = (out, st')"
      and "exchange_calls st' \<noteq> exchange_calls st"
      and "exchange env = Exchange_failed msg"
  shows "out = Return (Some (stamp_token
                 (getGlobalInstagramFacebookToken (fallback_read_ok env) st) raw))
         \<and> token_rows st' = token_rows st"
  using assms
  by (auto simp: refreshBrandToken_def Let_def refresh_locked_def refresh_try_def
        getGlobal_same_rows[of "issue_exchange f g s" "s" for f g s]
        getGlobal_same_rows[of "register_lock k s" "s" for k s]
      split: option.splits if_splits)

theorem refresh_exchange_failure_witness:
  "credsRaw ex_brand (provider_of None) = Some ex_creds
   \<and> truthy (appId ex_creds) \<and> truthy (appSecret ex_creds)
   \<and> exchange_calls (snd (refreshBrandToken ex_brand None
         (ex_env\<lparr>exchange := Exchange_failed ''timeout''\<rparr>) ex_state)) \<noteq> exchange_calls ex_state
   \<and> fst (refreshBrandToken ex_brand None (ex_env\<lparr>exchange := Exchange_failed ''timeout''\<rparr>) ex_state)
       = Return (Some [(''client_id'', JStr ''1''), (''client_secret'', JStr ''s''),
                       (''access_token'', JStr ''global-old'')])"
proof -
  let ?env = "ex_env\<lparr>exchange := Exchange_failed ''timeout''\<rparr>"
  let ?res = "refreshBrandToken ex_brand None ?env ex_state"
  have raw: "credsRaw ex_brand (provider_of None) = Some ex_creds"
    by (simp add: ex_credsRaw provider_of_def)
  have run: "?res = (fst ?res, snd ?res)"
    by simp
  have issued: "exchange_calls (snd ?res) \<noteq> exchange_calls ex_state"
    using ex_complete
    by (simp add: refreshBrandToken_def Let_def ex_credsRaw provider_of_def ex_lockKey
          ex_state_def ex_env_def refresh_locked_def refresh_try_def
          getGlobalInstagramFacebookToken_def)
  have failed: "exchange ?env = Exchange_failed ''timeout''"
    by simp
  from refresh_exchange_failure[OF raw conjunct1[OF ex_complete] conjunct2[OF ex_complete]
      run issued failed]
  have "fst ?res = Return (Some (stamp_token
          (getGlobalInstagramFacebookToken (fallback_read_ok ?env) ex_state) ex_creds))"
    by simp
  then have "fst ?res = Return (Some [(''client_id'', JStr ''1''), (''client_secret'', JStr ''s''),
                       (''access_token'', JStr ''global-old'')])"
    by (simp add: stamp_token_def getGlobalInstagramFacebookToken_def ex_env_def ex_state_def
          ex_creds_def set_prop_def)
  with raw ex_complete issued show ?thesis
    by simp
qed

text \<open>
  Claim C4 as it stands fails where the response carries \<open>expires_in: 0\<close>: the code tests
  \<open>if (data.expires_in)\<close>, zero is falsy, and no \<open>expires_at\<close> is set, although the time
  \<open>now + 0\<close> has an ISO string.
\<close>

theorem refresh_expires_in_zero_counterexample:
  "exchange (ex_env\<lparr>exchange := Exchange_ok \<lparr>access_token = Some ''global-new'', expires_in = Some 0\<rparr>\<rparr>)
     = Exchange_ok \<lparr>access_token = Some ''global-new'', expires_in = Some 0\<rparr>
   \<and> fst (refreshBrandToken ex_brand None
          (ex_env\<lparr>exchange := Exchange_ok \<lparr>access_token = Some ''global-new'', expires_in = Some 0\<rparr>\<rparr>)
          ex_state)
       = Return (Some [(''client_id'', JStr ''1''), (''client_secret'', JStr ''s''),
                       (''access_token'', JStr ''global-new'')])
   \<and> get_prop [(''client_id'', JStr ''1''), (''client_secret'', JStr ''s''),
                (''access_token'', JStr ''global-new'')] ''expires_at'' = None
   \<and> toISOString (now ex_env + 0 * 1000) = Some ''1970-01-01T00:00:00.000Z''"
proof -
  show ?thesis
    using ex_complete toISOString_epoch
    by (simp add: refreshBrandToken_def Let_def ex_credsRaw provider_of_def ex_lockKey
        refresh_locked_def refresh_try_def getGlobalInstagramFacebookToken_def
        setGlobalInstagramFacebookToken_def
        ex_state_def ex_env_def ex_creds_def set_prop_def get_prop_def)
qed

text \<open>
  Claim C4, amended. Take a brand whose credentials for the provider hold an app id and
  an app secret, a store whose single row (id 1) holds the global token, and a call in
  which the exchange request was issued and answered with a non-empty \<open>access_token\<close>,
  the store accepting the write. Then the row holds that token after the call, and the
  call returns the credentials copy with \<open>access_token\<close> set to it. When the response
  carries an \<open>expires_in\<close> that is not zero and \<open>now + expires_in * 1000\<close> is a valid time
  value, the copy also has \<open>expires_at\<close> set to the ISO string of that time; when
  \<open>expires_in\<close> is absent or zero, nothing but \<open>access_token\<close> is set.
\<close>

theorem refresh_exchange_success:
  assumes "credsRaw b (provider_of arg) = Some raw"
      and "truthy (appId raw)" and "truthy (appSecret raw)"
      and "token_rows st = [(1, g)]"
      and "refreshBrandToken b arg env st = (out, st')"
      and "exchange_calls st' \<noteq> exchange_calls st"
      and "exchange env = Exchange_ok data"
      and "access_token data = Some t" and "t \<noteq> []"
      and "global_write_ok env"
  shows "token_rows st' = [(1, t)]
         \<and> (\<exists>c. out = Return (Some c) \<and> get_prop c ''access_token'' = Some (JStr t)
              \<and> (\<forall>n s. expires_in data = Some n \<and> n \<noteq> 0 \<and> toISOString (now env + n * 1000) = Some s
                    \<longrightarrow> c = set_prop ''expires_at'' (JStr s) (set_prop ''access_token'' (JStr t) raw))
              \<and> (expires_in data = None \<or> expires_in data = Some 0
                    \<longrightarrow> c = set_prop ''access_token'' (JStr t) raw))"
  using assms
  by (auto simp: refreshBrandToken_def Let_def refresh_locked_def refresh_try_def
        setGlobalInstagramFacebookToken_def upsert_single get_set_prop stamp_token_def
        getGlobalInstagramFacebookToken_def
      split: option.splits if_splits)

lemma ex_refresh_success:
  "refreshBrandToken ex_brand None ex_env ex_state =
     (Return (Some [(''client_id'', JStr ''1''), (''client_secret'', JStr ''s''),
                    (''access_token'', JStr ''global-new''),
                    (''expires_at'', JStr ''1970-01-01T01:00:00.000Z'')]),
      ex_state\<lparr>promises := [True], token_rows := [(1, ''global-new'')],
        exchange_calls := [\<lparr>grant_type = ''fb_exchange_token'', client_id = Some (JStr ''1''),
          client_secret = Some (JStr ''s''), fb_exchange_token = ''global-old''\<rparr>]\<rparr>)"
  using ex_complete
  by (simp add: refreshBrandToken_def Let_def ex_credsRaw provider_of_def ex_lockKey
        refresh_locked_def refresh_try_def getGlobalInstagramFacebookToken_def
        setGlobalInstagramFacebookToken_def upsert_token_def toISOString_hour
        register_lock_def release_lock_def issue_exchange_def params_of_def
        ex_state_def ex_env_def ex_creds_def set_prop_def appId_def appSecret_def
        get_prop_def js_or_def)

theorem refresh_exchange_success_witness:
  "credsRaw ex_brand (provider_of None) = Some ex_creds
   \<and> truthy (appId ex_creds) \<and> truthy (appSecret ex_creds)
   \<and> token_rows ex_state = [(1, ''global-old'')]
   \<and> exchange_calls (snd (refreshBrandToken ex_brand None ex_env ex_state)) \<noteq> exchange_calls ex_state
   \<and> exchange ex_env = Exchange_ok \<lparr>access_token = Some ''global-new'', expires_in = Some 3600\<rparr>
   \<and> global_write_ok ex_env
   \<and> toISOString (now ex_env + 3600 * 1000) = Some ''1970-01-01T01:00:00.000Z''
   \<and> token_rows (snd (refreshBrandToken ex_brand None ex_env ex_state)) = [(1, ''global-new'')]
   \<and> fst (refreshBrandToken ex_brand None ex_env ex_state)
       = Return (Some (set_prop ''expires_at'' (JStr ''1970-01-01T01:00:00.000Z'')
                        (set_prop ''access_token'' (JStr ''global-new'') ex_creds)))"
proof -
  let ?res = "refreshBrandToken ex_brand None ex_env ex_state"
  let ?data = "\<lparr>access_token = Some ''global-new'', expires_in = Some 3600\<rparr>"
  have raw: "credsRaw ex_brand (provider_of None) = Some ex_creds"
    by (simp add: ex_credsRaw provider_of_def)
  have rows: "token_rows ex_state = [(1, ''global-old'')]"
    by (simp add: ex_state_def)
  have run: "?res = (fst ?res, snd ?res)"
    by simp
  have issued: "exchange_calls (snd ?res) \<noteq> exchange_calls ex_state"
    by (simp add: ex_refresh_success) (simp add: ex_state_def)
  have ok: "exchange ex_env = Exchange_ok ?data"
    by (simp add: ex_env_def)
  have tok: "access_token ?data = Some ''global-new''" "''global-new'' \<noteq> []"
    by simp_all
  have w: "global_write_ok ex_env"
    by (simp add: ex_env_def)
  have iso: "toISOString (now ex_env + 3600 * 1000) = Some ''1970-01-01T01:00:00.000Z''"
    by (simp add: ex_env_def toISOString_hour)
  from refresh_exchange_success[OF raw conjunct1[OF ex_complete] conjunct2[OF ex_complete]
      rows run issued ok tok w] iso
  have "token_rows (snd ?res) = [(1, ''global-new'')]
      \<and> fst ?res = Return (Some (set_prop ''expires_at'' (JStr ''1970-01-01T01:00:00.000Z'')
                        (set_prop ''access_token'' (JStr ''global-new'') ex_creds)))"
    by auto
  with raw ex_complete rows issued ok w iso show ?thesis
    by simp
qed

text \<open>
  Claim C6. The call returns \<open>null\<close> exactly when the brand has no credentials for the
  provider. When it has credentials but no truthy app id or no truthy app secret under
  any of the accepted names, the call returns them unchanged and leaves the whole state
  as it was: no exchange request, no write to the token table, no lock.
\<close>

theorem refresh_null_or_unchanged:
  "(fst (refreshBrandToken b arg env st) = Return None \<longleftrightarrow> credsRaw b (provider_of arg) = None)
   \<and> (\<forall>raw. credsRaw b (provider_of arg) = Some raw
          \<and> (\<not> truthy (appId raw) \<or> \<not> truthy (appSecret raw))
        \<longrightarrow> refreshBrandToken b arg env st = (Return (Some raw), st))"
  by (auto simp: refreshBrandToken_def Let_def split: option.splits prod.splits)

theorem refresh_null_or_unchanged_witness:
  "credsRaw ex_brand (provider_of (Some ''facebook'')) = None
   \<and> fst (refreshBrandToken ex_brand (Some ''facebook'') ex_env ex_state) = Return None
   \<and> credsRaw ex_partial (provider_of None) = Some [(''client_id'', JStr ''1''), (''app_secret'', JStr [])]
   \<and> \<not> truthy (appSecret [(''client_id'', JStr ''1''), (''app_secret'', JStr [])])
   \<and> refreshBrandToken ex_partial None ex_env ex_state
       = (Return (Some [(''client_id'', JStr ''1''), (''app_secret'', JStr [])]), ex_state)"
proof -
  have none: "credsRaw ex_brand (provider_of (Some ''facebook'')) = None"
    by (simp add: credsRaw_def provider_of_def ex_brand_def)
  have some: "credsRaw ex_partial (provider_of None) = Some [(''client_id'', JStr ''1''), (''app_secret'', JStr [])]"
    by (simp add: credsRaw_def provider_of_def ex_partial_def)
  have inc: "\<not> truthy (appSecret [(''client_id'', JStr ''1''), (''app_secret'', JStr [])])"
    by (simp add: appSecret_def get_prop_def js_or_def)
  from refresh_null_or_unchanged[of ex_brand "Some ''facebook''" ex_env ex_state] none
  have a: "fst (refreshBrandToken ex_brand (Some ''facebook'') ex_env ex_state) = Return None"
    by simp
  from refresh_null_or_unchanged[of ex_partial None ex_env ex_state] some inc
  have b: "refreshBrandToken ex_partial None ex_env ex_state
       = (Return (Some [(''client_id'', JStr ''1''), (''app_secret'', JStr [])]), ex_state)"
    by blast
  from none some inc a b show ?thesis
    by simp
qed

subsection \<open>Providers other than facebook\<close>

lemma call_holder:
  assumes "credsRaw b (provider_of arg) = Some raw"
      and "truthy (appId raw)" and "truthy (appSecret raw)"
      and "refreshLocks st (lockKey b (provider_of arg)) = None"
  shows "call b arg st =
     (Await_global_token
        \<lparr>creds = raw, key = lockKey b (provider_of arg), resolveLock = length (promises st),
         app_id = appId raw, app_secret = appSecret raw\<rparr>,
      register_lock (lockKey b (provider_of arg)) st)"
  using assms by (simp add: call_def Let_def)


lemma refresh_try_locks:
  "refresh_try env (f\<lparr>key := k\<rparr>) (st\<lparr>refreshLocks := m\<rparr>) =
     (case refresh_try env f st of (thrown, c, s) \<Rightarrow> (thrown, c, s\<lparr>refreshLocks := m\<rparr>))"
  by (auto simp: refresh_try_def Let_def issue_exchange_def params_of_def
        getGlobalInstagramFacebookToken_def setGlobalInstagramFacebookToken_def
        upsert_token_def
      split: option.splits list.splits exchange_result.splits)

lemma refresh_try_keeps_locks:
  "refresh_try env f st = (thrown, c, st') \<Longrightarrow>
   refreshLocks st' = refreshLocks st \<and> promises st' = promises st"
  by (auto simp: refresh_try_def Let_def setGlobalInstagramFacebookToken_def
      split: option.splits if_splits exchange_result.splits)

lemma refresh_same_for_providers:
  assumes "credsRaw b p1 = Some raw" and "credsRaw b p2 = Some raw"
      and "truthy (appId raw)" and "truthy (appSecret raw)"
      and "refreshLocks st (lockKey b p1) = None"
      and "refreshLocks st (lockKey b p2) = None"
  shows "refreshBrandToken b (Some p1) env st = refreshBrandToken b (Some p2) env st"
proof -
  define f where "f = \<lparr>creds = raw, key = [], resolveLock = length (promises st),
                 app_id = appId raw, app_secret = appSecret raw\<rparr>"
  define s0 where "s0 = st\<lparr>promises := promises st @ [False]\<rparr>"
  obtain thrown c s where t: "refresh_try env f s0 = (thrown, c, s)"
    by (cases "refresh_try env f s0")
  have locks: "refreshLocks s = refreshLocks st"
    using refresh_try_keeps_locks[OF t] by (simp add: s0_def)
  have run: "refreshBrandToken b (Some p) env st =
      (Return (Some (if thrown
            then stamp_token (getGlobalInstagramFacebookToken (fallback_read_ok env) s) c
            else c)),
       s\<lparr>promises := (promises s)[length (promises st) := True]\<rparr>)"
    if "credsRaw b p = Some raw" and "refreshLocks st (lockKey b p) = None" for p
  proof -
    have "register_lock (lockKey b p) st
          = s0\<lparr>refreshLocks := (refreshLocks st)(lockKey b p \<mapsto> length (promises st))\<rparr>"
      by (simp add: register_lock_def s0_def)
    moreover have "\<lparr>creds = raw, key = lockKey b p, resolveLock = length (promises st),
                 app_id = appId raw, app_secret = appSecret raw\<rparr> = f\<lparr>key := lockKey b p\<rparr>"
      by (simp add: f_def)
    ultimately have "refresh_try env
            \<lparr>creds = raw, key = lockKey b p, resolveLock = length (promises st),
                 app_id = appId raw, app_secret = appSecret raw\<rparr>
            (register_lock (lockKey b p) st)
          = (thrown, c, s\<lparr>refreshLocks := (refreshLocks st)(lockKey b p \<mapsto> length (promises st))\<rparr>)"
      using t by (simp add: refresh_try_locks)
    moreover have "(refreshLocks st)(lockKey b p := None) = refreshLocks s"
      using locks that(2) by (simp add: fun_upd_idem)
    ultimately show ?thesis
      using that assms(3,4)
      by (simp add: refreshBrandToken_def provider_of_def refresh_locked_def release_lock_def
            getGlobalInstagramFacebookToken_def)
  qed
  from run[OF assms(1,5)] run[OF assms(2,6)] show ?thesis
    by simp
qed

lemma refresh_provider_of:
  "refreshBrandToken b arg env st = refreshBrandToken b (Some (provider_of arg)) env st"
  by (simp add: refreshBrandToken_def provider_of_def)

lemma stamp_token_other:
  "k \<noteq> ''access_token'' \<Longrightarrow> get_prop (stamp_token tok c) k = get_prop c k"
  by (simp add: stamp_token_def get_set_prop split: option.splits)

lemma refresh_try_props:
  assumes "refresh_try env f st = (thrown, c, st')"
      and "k \<noteq> ''access_token''" and "k \<noteq> ''expires_at''"
  shows "get_prop c k = get_prop (creds f) k"
  using assms
  by (auto simp: refresh_try_def Let_def get_set_prop
      split: option.splits if_splits exchange_result.splits sum.splits)

lemma refresh_try_request:
  assumes "refresh_try env f st = (thrown, c, st')"
      and "getGlobalInstagramFacebookToken (global_read_ok env) st = Some g" and "g \<noteq> []"
  shows "exchange_calls st' = exchange_calls st @ [params_of f g]"
  using assms
  by (auto simp: refresh_try_def Let_def setGlobalInstagramFacebookToken_def
      split: option.splits if_splits exchange_result.splits)

lemma refresh_try_token:
  assumes "refresh_try env f st = (thrown, c, st')"
      and "getGlobalInstagramFacebookToken (global_read_ok env) st = Some g" and "g \<noteq> []"
      and "exchange env = Exchange_ok data" and "access_token data = Some t" and "t \<noteq> []"
      and "global_write_ok env"
      and "\<forall>n. expires_in data = Some n \<longrightarrow> n = 0 \<or> toISOString (now env + n * 1000) \<noteq> None"
  shows "\<not> thrown \<and> get_prop c ''access_token'' = Some (JStr t)"
  using assms
  by (auto simp: refresh_try_def Let_def setGlobalInstagramFacebookToken_def get_set_prop
      split: option.splits if_splits)

lemma refresh_holder:
  assumes "credsRaw b (provider_of arg) = Some raw"
      and "truthy (appId raw)" and "truthy (appSecret raw)"
      and "refreshLocks st (lockKey b (provider_of arg)) = None"
  shows "\<exists>thrown c s.
           refresh_try env
             \<lparr>creds = raw, key = lockKey b (provider_of arg), resolveLock = length (promises st),
              app_id = appId raw, app_secret = appSecret raw\<rparr>
             (register_lock (lockKey b (provider_of arg)) st) = (thrown, c, s)
         \<and> refreshBrandToken b arg env st =
             (Return (Some (if thrown
                then stamp_token (getGlobalInstagramFacebookToken (fallback_read_ok env) s) c
                else c)),
              release_lock (lockKey b (provider_of arg)) (length (promises st)) s)"
proof -
  let ?f = "\<lparr>creds = raw, key = lockKey b (provider_of arg), resolveLock = length (promises st),
              app_id = appId raw, app_secret = appSecret raw\<rparr>"
  obtain thrown c s where
    t: "refresh_try env ?f (register_lock (lockKey b (provider_of arg)) st) = (thrown, c, s)"
    by (cases "refresh_try env ?f (register_lock (lockKey b (provider_of arg)) st)")
  with assms show ?thesis
    by (simp add: refreshBrandToken_def refresh_locked_def)
qed

text \<open>
  Claim C10. Take a provider argument, left out or given, that does not resolve to
  \<open>'facebook'\<close>. The call reads the instagram column: the facebook column has no
  influence on it, and it returns \<open>null\<close> exactly when the instagram column is empty. When
  the instagram credentials hold an app id and an app secret and no refresh is in flight
  under the lock key:
  \<^item> the call registers the lock under the key made of the brand id, an underscore and the
    provider string as given, holding a copy of the instagram credentials;
  \<^item> run to its end, it returns an object that agrees with the instagram credentials on
    every property but \<open>access_token\<close> and \<open>expires_at\<close>;
  \<^item> when the store gives a global token, the call issues one exchange request, with the
    app id and the app secret of the instagram credentials and that token; and when the
    exchange answers with a non-empty \<open>access_token\<close> that the store accepts (\<open>expires_in\<close>
    absent, zero or giving a valid date), the object returned carries that token;
  \<^item> a second argument that resolves to another string, not \<open>'facebook'\<close> either, gives
    another lock key and the same result and state; and two such calls made in a row both
    take the lock (neither waits for the other), each under its own key, on the same
    credentials.
\<close>

theorem refresh_other_provider:
  assumes "provider_of arg \<noteq> ''facebook''"
  shows "credsRaw b (provider_of arg) = instagramCredentials b
       \<and> refreshBrandToken (b\<lparr>facebookCredentials := fb\<rparr>) arg env st = refreshBrandToken b arg env st
       \<and> (fst (refreshBrandToken b arg env st) = Return None \<longleftrightarrow> instagramCredentials b = None)
       \<and> (\<forall>raw. instagramCredentials b = Some raw \<and> truthy (appId raw) \<and> truthy (appSecret raw)
              \<and> refreshLocks st (lockKey b (provider_of arg)) = None \<longrightarrow>
            (\<exists>f. call b arg st =
                    (Await_global_token f,
                     register_lock (string_of_nat (brand_id b) @ ''_'' @ provider_of arg) st)
                \<and> creds f = raw
                \<and> key f = string_of_nat (brand_id b) @ ''_'' @ provider_of arg)
          \<and> (\<exists>c st'. refreshBrandToken b arg env st = (Return (Some c), st')
                \<and> (\<forall>k. k \<noteq> ''access_token'' \<and> k \<noteq> ''expires_at'' \<longrightarrow> get_prop c k = get_prop raw k)
                \<and> (\<forall>g. getGlobalInstagramFacebookToken (global_read_ok env) st = Some g \<and> g \<noteq> [] \<longrightarrow>
                      exchange_calls st' = exchange_calls st @
                        [\<lparr>grant_type = ''fb_exchange_token'', client_id = appId raw,
                          client_secret = appSecret raw, fb_exchange_token = g\<rparr>]
                    \<and> (\<forall>data t. exchange env = Exchange_ok data \<and> access_token data = Some t
                            \<and> t \<noteq> [] \<and> global_write_ok env
                            \<and> (\<forall>n. expires_in data = Some n \<longrightarrow>
                                  n = 0 \<or> toISOString (now env + n * 1000) \<noteq> None) \<longrightarrow>
                          get_prop c ''access_token'' = Some (JStr t))))
          \<and> (\<forall>arg2. provider_of arg2 \<noteq> ''facebook'' \<and> provider_of arg2 \<noteq> provider_of arg
                  \<and> refreshLocks st (lockKey b (provider_of arg2)) = None \<longrightarrow>
                lockKey b (provider_of arg2) \<noteq> lockKey b (provider_of arg)
              \<and> refreshBrandToken b arg2 env st = refreshBrandToken b arg env st
              \<and> (\<exists>f1 st1 f2 st2.
                    call b arg st = (Await_global_token f1, st1)
                  \<and> call b arg2 st1 = (Await_global_token f2, st2)
                  \<and> creds f1 = raw \<and> creds f2 = raw
                  \<and> refreshLocks st2 (lockKey b (provider_of arg)) = Some (resolveLock f1)
                  \<and> refreshLocks st2 (lockKey b (provider_of arg2)) = Some (resolveLock f2))))"
proof -
  let ?k = "lockKey b (provider_of arg)"
  have column: "credsRaw b (provider_of arg) = instagramCredentials b"
    using assms by (simp add: credsRaw_def)
  have same_key: "lockKey (b\<lparr>facebookCredentials := fb\<rparr>) = lockKey b"
    by (simp add: lockKey_def fun_eq_iff)
  have same_creds: "credsRaw (b\<lparr>facebookCredentials := fb\<rparr>) (provider_of arg)
                    = credsRaw b (provider_of arg)"
    using assms by (simp add: credsRaw_def)
  have blind: "refreshBrandToken (b\<lparr>facebookCredentials := fb\<rparr>) arg env st
               = refreshBrandToken b arg env st"
    unfolding refreshBrandToken_def Let_def same_key same_creds by (rule refl)
  have null: "fst (refreshBrandToken b arg env st) = Return None \<longleftrightarrow> instagramCredentials b = None"
  proof (cases "instagramCredentials b")
    case None
    with column show ?thesis
      by (simp add: refreshBrandToken_def)
  next
    case (Some raw)
    with column have "credsRaw b (provider_of arg) = Some raw"
      by simp
    then have "fst (refreshBrandToken b arg env st) \<noteq> Return None"
      by (simp add: refreshBrandToken_def Let_def split: option.splits prod.splits)
    with Some show ?thesis
      by simp
  qed
  have complete:
    "\<forall>raw. instagramCredentials b = Some raw \<and> truthy (appId raw) \<and> truthy (appSecret raw)
              \<and> refreshLocks st (lockKey b (provider_of arg)) = None \<longrightarrow>
     (\<exists>f. call b arg st =
              (Await_global_token f,
               register_lock (string_of_nat (brand_id b) @ ''_'' @ provider_of arg) st)
          \<and> creds f = raw
          \<and> key f = string_of_nat (brand_id b) @ ''_'' @ provider_of arg)
     \<and> (\<exists>c st'. refreshBrandToken b arg env st = (Return (Some c), st')
          \<and> (\<forall>k. k \<noteq> ''access_token'' \<and> k \<noteq> ''expires_at'' \<longrightarrow> get_prop c k = get_prop raw k)
          \<and> (\<forall>g. getGlobalInstagramFacebookToken (global_read_ok env) st = Some g \<and> g \<noteq> [] \<longrightarrow>
                exchange_calls st' = exchange_calls st @
                  [\<lparr>grant_type = ''fb_exchange_token'', client_id = appId raw,
                    client_secret = appSecret raw, fb_exchange_token = g\<rparr>]
              \<and> (\<forall>data t. exchange env = Exchange_ok data \<and> access_token data = Some t
                      \<and> t \<noteq> [] \<and> global_write_ok env
                      \<and> (\<forall>n. expires_in data = Some n \<longrightarrow>
                            n = 0 \<or> toISOString (now env + n * 1000) \<noteq> None) \<longrightarrow>
                    get_prop c ''access_token'' = Some (JStr t))))
     \<and> (\<forall>arg2. provider_of arg2 \<noteq> ''facebook'' \<and> provider_of arg2 \<noteq> provider_of arg
            \<and> refreshLocks st (lockKey b (provider_of arg2)) = None \<longrightarrow>
          lockKey b (provider_of arg2) \<noteq> lockKey b (provider_of arg)
        \<and> refreshBrandToken b arg2 env st = refreshBrandToken b arg env st
        \<and> (\<exists>f1 st1 f2 st2.
              call b arg st = (Await_global_token f1, st1)
            \<and> call b arg2 st1 = (Await_global_token f2, st2)
            \<and> creds f1 = raw \<and> creds f2 = raw
            \<and> refreshLocks st2 (lockKey b (provider_of arg)) = Some (resolveLock f1)
            \<and> refreshLocks st2 (lockKey b (provider_of arg2)) = Some (resolveLock f2)))"
  proof (intro allI impI)
    fix raw
    assume "instagramCredentials b = Some raw \<and> truthy (appId raw) \<and> truthy (appSecret raw)
              \<and> refreshLocks st (lockKey b (provider_of arg)) = None"
    then have raw: "instagramCredentials b = Some raw"
      and id: "truthy (appId raw)" and secret: "truthy (appSecret raw)"
      and free: "refreshLocks st ?k = None"
      by simp_all
    let ?f = "\<lparr>creds = raw, key = ?k, resolveLock = length (promises st),
               app_id = appId raw, app_secret = appSecret raw\<rparr>"
    have c1: "credsRaw b (provider_of arg) = Some raw"
      using column raw by simp
    note first = call_holder[OF c1 id secret free]
    have started: "\<exists>f. call b arg st =
              (Await_global_token f,
               register_lock (string_of_nat (brand_id b) @ ''_'' @ provider_of arg) st)
          \<and> creds f = raw
          \<and> key f = string_of_nat (brand_id b) @ ''_'' @ provider_of arg"
      using first by (intro exI[of _ ?f]) (simp add: lockKey_def)
    from refresh_holder[OF c1 id secret free, of env] obtain thrown c s where
      t: "refresh_try env ?f (register_lock ?k st) = (thrown, c, s)"
      and run: "refreshBrandToken b arg env st =
             (Return (Some (if thrown
                then stamp_token (getGlobalInstagramFacebookToken (fallback_read_ok env) s) c
                else c)),
              release_lock ?k (length (promises st)) s)"
      by blast
    define c' where "c' = (if thrown
                then stamp_token (getGlobalInstagramFacebookToken (fallback_read_ok env) s) c
                else c)"
    define st' where "st' = release_lock ?k (length (promises st)) s"
    have run': "refreshBrandToken b arg env st = (Return (Some c'), st')"
      using run by (simp add: c'_def st'_def)
    have props: "\<forall>k. k \<noteq> ''access_token'' \<and> k \<noteq> ''expires_at'' \<longrightarrow> get_prop c' k = get_prop raw k"
      using refresh_try_props[OF t] by (simp add: stamp_token_other c'_def)
    have request: "\<forall>g. getGlobalInstagramFacebookToken (global_read_ok env) st = Some g \<and> g \<noteq> [] \<longrightarrow>
                exchange_calls st' = exchange_calls st @
                  [\<lparr>grant_type = ''fb_exchange_token'', client_id = appId raw,
                    client_secret = appSecret raw, fb_exchange_token = g\<rparr>]
              \<and> (\<forall>data t. exchange env = Exchange_ok data \<and> access_token data = Some t
                      \<and> t \<noteq> [] \<and> global_write_ok env
                      \<and> (\<forall>n. expires_in data = Some n \<longrightarrow>
                            n = 0 \<or> toISOString (now env + n * 1000) \<noteq> None) \<longrightarrow>
                    get_prop c' ''access_token'' = Some (JStr t))"
    proof (intro allI impI conjI)
      fix g
      assume g: "getGlobalInstagramFacebookToken (global_read_ok env) st = Some g \<and> g \<noteq> []"
      moreover have "getGlobalInstagramFacebookToken (global_read_ok env) (register_lock ?k st)
                     = getGlobalInstagramFacebookToken (global_read_ok env) st"
        by (rule getGlobal_same_rows) simp
      ultimately have
        read: "getGlobalInstagramFacebookToken (global_read_ok env) (register_lock ?k st) = Some g"
        and ne: "g \<noteq> []"
        by simp_all
      from refresh_try_request[OF t read ne]
      show "exchange_calls st' = exchange_calls st @
                  [\<lparr>grant_type = ''fb_exchange_token'', client_id = appId raw,
                    client_secret = appSecret raw, fb_exchange_token = g\<rparr>]"
        by (simp add: params_of_def st'_def)
      fix data tok
      assume ok: "exchange env = Exchange_ok data \<and> access_token data = Some tok
                      \<and> tok \<noteq> [] \<and> global_write_ok env
                      \<and> (\<forall>n. expires_in data = Some n \<longrightarrow>
                            n = 0 \<or> toISOString (now env + n * 1000) \<noteq> None)"
      then have "exchange env = Exchange_ok data" "access_token data = Some tok" "tok \<noteq> []"
        "global_write_ok env"
        "\<forall>n. expires_in data = Some n \<longrightarrow> n = 0 \<or> toISOString (now env + n * 1000) \<noteq> None"
        by simp_all
      from refresh_try_token[OF t read ne this]
      show "get_prop c' ''access_token'' = Some (JStr tok)"
        by (simp add: c'_def)
    qed
    have refreshed: "\<exists>c st'. refreshBrandToken b arg env st = (Return (Some c), st')
          \<and> (\<forall>k. k \<noteq> ''access_token'' \<and> k \<noteq> ''expires_at'' \<longrightarrow> get_prop c k = get_prop raw k)
          \<and> (\<forall>g. getGlobalInstagramFacebookToken (global_read_ok env) st = Some g \<and> g \<noteq> [] \<longrightarrow>
                exchange_calls st' = exchange_calls st @
                  [\<lparr>grant_type = ''fb_exchange_token'', client_id = appId raw,
                    client_secret = appSecret raw, fb_exchange_token = g\<rparr>]
              \<and> (\<forall>data t. exchange env = Exchange_ok data \<and> access_token data = Some t
                      \<and> t \<noteq> [] \<and> global_write_ok env
                      \<and> (\<forall>n. expires_in data = Some n \<longrightarrow>
                            n = 0 \<or> toISOString (now env + n * 1000) \<noteq> None) \<longrightarrow>
                    get_prop c ''access_token'' = Some (JStr t)))"
      by (rule exI[of _ c'], rule exI[of _ st'], rule conjI[OF run' conjI[OF props request]])
    have other: "\<forall>arg2. provider_of arg2 \<noteq> ''facebook'' \<and> provider_of arg2 \<noteq> provider_of arg
            \<and> refreshLocks st (lockKey b (provider_of arg2)) = None \<longrightarrow>
          lockKey b (provider_of arg2) \<noteq> ?k
        \<and> refreshBrandToken b arg2 env st = refreshBrandToken b arg env st
        \<and> (\<exists>f1 st1 f2 st2.
              call b arg st = (Await_global_token f1, st1)
            \<and> call b arg2 st1 = (Await_global_token f2, st2)
            \<and> creds f1 = raw \<and> creds f2 = raw
            \<and> refreshLocks st2 ?k = Some (resolveLock f1)
            \<and> refreshLocks st2 (lockKey b (provider_of arg2)) = Some (resolveLock f2))"
    proof (intro allI impI)
      fix arg2
      assume "provider_of arg2 \<noteq> ''facebook'' \<and> provider_of arg2 \<noteq> provider_of arg
            \<and> refreshLocks st (lockKey b (provider_of arg2)) = None"
      then have nf: "provider_of arg2 \<noteq> ''facebook''" and ne: "provider_of arg2 \<noteq> provider_of arg"
        and free2: "refreshLocks st (lockKey b (provider_of arg2)) = None"
        by simp_all
      let ?k2 = "lockKey b (provider_of arg2)"
      let ?f2 = "\<lparr>creds = raw, key = ?k2, resolveLock = length (promises (register_lock ?k st)),
                 app_id = appId raw, app_secret = appSecret raw\<rparr>"
      have c2: "credsRaw b (provider_of arg2) = Some raw"
        using nf raw by (simp add: credsRaw_def)
      have keys: "?k2 \<noteq> ?k"
        using ne by (simp add: lockKey_def)
      have same: "refreshBrandToken b arg2 env st = refreshBrandToken b arg env st"
        using refresh_same_for_providers[OF c2 c1 id secret free2 free, of env]
          refresh_provider_of[of b arg env st] refresh_provider_of[of b arg2 env st]
        by simp
      have free': "refreshLocks (register_lock ?k st) ?k2 = None"
        using keys free2 by simp
      have second: "call b arg2 (register_lock ?k st) =
         (Await_global_token ?f2, register_lock ?k2 (register_lock ?k st))"
        by (rule call_holder[OF c2 id secret free'])
      have l1: "refreshLocks (register_lock ?k2 (register_lock ?k st)) ?k = Some (resolveLock ?f)"
        using keys by simp
      have l2: "refreshLocks (register_lock ?k2 (register_lock ?k st)) ?k2 = Some (resolveLock ?f2)"
        by simp
      have cr: "creds ?f = raw" "creds ?f2 = raw"
        by simp_all
      have both: "\<exists>f1 st1 f2 st2.
              call b arg st = (Await_global_token f1, st1)
            \<and> call b arg2 st1 = (Await_global_token f2, st2)
            \<and> creds f1 = raw \<and> creds f2 = raw
            \<and> refreshLocks st2 ?k = Some (resolveLock f1)
            \<and> refreshLocks st2 ?k2 = Some (resolveLock f2)"
        by (rule exI[of _ ?f], rule exI[of _ "register_lock ?k st"], rule exI[of _ ?f2],
            rule exI[of _ "register_lock ?k2 (register_lock ?k st)"],
            rule conjI[OF first conjI[OF second conjI[OF cr(1) conjI[OF cr(2) conjI[OF l1 l2]]]]])
      show "?k2 \<noteq> ?k
        \<and> refreshBrandToken b arg2 env st = refreshBrandToken b arg env st
        \<and> (\<exists>f1 st1 f2 st2.
              call b arg st = (Await_global_token f1, st1)
            \<and> call b arg2 st1 = (Await_global_token f2, st2)
            \<and> creds f1 = raw \<and> creds f2 = raw
            \<and> refreshLocks st2 ?k = Some (resolveLock f1)
            \<and> refreshLocks st2 ?k2 = Some (resolveLock f2))"
        by (rule conjI[OF keys conjI[OF same both]])
    qed
    show "(\<exists>f. call b arg st =
              (Await_global_token f,
               register_lock (string_of_nat (brand_id b) @ ''_'' @ provider_of arg) st)
          \<and> creds f = raw
          \<and> key f = string_of_nat (brand_id b) @ ''_'' @ provider_of arg)
     \<and> (\<exists>c st'. refreshBrandToken b arg env st = (Return (Some c), st')
          \<and> (\<forall>k. k \<noteq> ''access_token'' \<and> k \<noteq> ''expires_at'' \<longrightarrow> get_prop c k = get_prop raw k)
          \<and> (\<forall>g. getGlobalInstagramFacebookToken (global_read_ok env) st = Some g \<and> g \<noteq> [] \<longrightarrow>
                exchange_calls st' = exchange_calls st @
                  [\<lparr>grant_type = ''fb_exchange_token'', client_id = appId raw,
                    client_secret = appSecret raw, fb_exchange_token = g\<rparr>]
              \<and> (\<forall>data t. exchange env = Exchange_ok data \<and> access_token data = Some t
                      \<and> t \<noteq> [] \<and> global_write_ok env
                      \<and> (\<forall>n. expires_in data = Some n \<longrightarrow>
                            n = 0 \<or> toISOString (now env + n * 1000) \<noteq> None) \<longrightarrow>
                    get_prop c ''access_token'' = Some (JStr t))))
     \<and> (\<forall>arg2. provider_of arg2 \<noteq> ''facebook'' \<and> provider_of arg2 \<noteq> provider_of arg
            \<and> refreshLocks st (lockKey b (provider_of arg2)) = None \<longrightarrow>
          lockKey b (provider_of arg2) \<noteq> lockKey b (provider_of arg)
        \<and> refreshBrandToken b arg2 env st = refreshBrandToken b arg env st
        \<and> (\<exists>f1 st1 f2 st2.
              call b arg st = (Await_global_token f1, st1)
            \<and> call b arg2 st1 = (Await_global_token f2, st2)
            \<and> creds f1 = raw \<and> creds f2 = raw
            \<and> refreshLocks st2 (lockKey b (provider_of arg)) = Some (resolveLock f1)
            \<and> refreshLocks st2 (lockKey b (provider_of arg2)) = Some (resolveLock f2)))"
      by (rule conjI[OF started conjI[OF refreshed other]])
  qed
  show ?thesis
    by (rule conjI[OF column conjI[OF blind conjI[OF null complete]]])
qed

theorem refresh_other_provider_witness:
  "provider_of (Some ''tiktok'') \<noteq> ''facebook''
   \<and> instagramCredentials ex_brand = Some ex_creds
   \<and> truthy (appId ex_creds) \<and> truthy (appSecret ex_creds)
   \<and> refreshLocks ex_state (lockKey ex_brand (provider_of (Some ''tiktok''))) = None
   \<and> getGlobalInstagramFacebookToken (global_read_ok ex_env) ex_state = Some ''global-old''
   \<and> provider_of None \<noteq> ''facebook'' \<and> provider_of None \<noteq> provider_of (Some ''tiktok'')
   \<and> refreshLocks ex_state (lockKey ex_brand (provider_of None)) = None
   \<and> refreshLocks (snd (call ex_brand (Some ''tiktok'') ex_state)) ''7_tiktok'' = Some 0
   \<and> refreshLocks (snd (call ex_brand (Some ''tiktok'') ex_state)) ''7_instagram'' = None
   \<and> exchange_calls (snd (refreshBrandToken ex_brand (Some ''tiktok'') ex_env ex_state))
       = [\<lparr>grant_type = ''fb_exchange_token'', client_id = Some (JStr ''1''),
           client_secret = Some (JStr ''s''), fb_exchange_token = ''global-old''\<rparr>]
   \<and> (\<exists>c. fst (refreshBrandToken ex_brand (Some ''tiktok'') ex_env ex_state) = Return (Some c)
         \<and> get_prop c ''client_id'' = Some (JStr ''1'')
         \<and> get_prop c ''access_token'' = Some (JStr ''global-new''))
   \<and> refreshBrandToken ex_brand None ex_env ex_state
       = refreshBrandToken ex_brand (Some ''tiktok'') ex_env ex_state"
proof -
  let ?arg = "Some ''tiktok''"
  have h1: "provider_of ?arg \<noteq> ''facebook''" by (simp add: provider_of_def)
  have h2: "instagramCredentials ex_brand = Some ex_creds" by (simp add: ex_brand_def)
  note h3 = conjunct1[OF ex_complete] and h4 = conjunct2[OF ex_complete]
  note h5 = ex_locks_free[of "lockKey ex_brand (provider_of ?arg)"]
  have h6: "getGlobalInstagramFacebookToken (global_read_ok ex_env) ex_state = Some ''global-old''"
    by (simp add: getGlobalInstagramFacebookToken_def ex_env_def ex_state_def)
  have h7: "provider_of None \<noteq> ''facebook''" "provider_of None \<noteq> provider_of ?arg"
    by (simp_all add: provider_of_def)
  note h8 = ex_locks_free[of "lockKey ex_brand (provider_of None)"]
  let ?data = "\<lparr>access_token = Some ''global-new'', expires_in = Some 3600\<rparr>"
  have iso: "toISOString (now ex_env + 3600 * 1000) \<noteq> None"
    by (simp add: ex_env_def toISOString_hour)
  have ok: "exchange ex_env = Exchange_ok ?data \<and> access_token ?data = Some ''global-new''
      \<and> ''global-new'' \<noteq> [] \<and> global_write_ok ex_env
      \<and> (\<forall>n. expires_in ?data = Some n \<longrightarrow>
            n = 0 \<or> toISOString (now ex_env + n * 1000) \<noteq> None)"
    using iso by (auto simp: ex_env_def)
  have complete: "instagramCredentials ex_brand = Some ex_creds
      \<and> truthy (appId ex_creds) \<and> truthy (appSecret ex_creds)
      \<and> refreshLocks ex_state (lockKey ex_brand (provider_of ?arg)) = None"
    using h2 h3 h4 h5 by simp
  note inst = refresh_other_provider[OF h1, of ex_brand None ex_env ex_state]
  note body = conjunct2[OF conjunct2[OF conjunct2[OF inst]], rule_format, OF complete]
  note started = conjunct1[OF body]
  note refreshed = conjunct1[OF conjunct2[OF body]]
  note other = conjunct2[OF conjunct2[OF body], rule_format, of None]
  have key: "string_of_nat (brand_id ex_brand) @ ''_'' @ provider_of ?arg = ''7_tiktok''"
    by (simp add: provider_of_def ex_brand_def string_of_nat_small)
  from started[unfolded key] obtain f where
    "call ex_brand ?arg ex_state = (Await_global_token f, register_lock ''7_tiktok'' ex_state)"
    by blast
  then have "snd (call ex_brand ?arg ex_state) = register_lock ''7_tiktok'' ex_state"
    by simp
  then have locks:
    "refreshLocks (snd (call ex_brand ?arg ex_state)) ''7_tiktok'' = Some 0"
    "refreshLocks (snd (call ex_brand ?arg ex_state)) ''7_instagram'' = None"
    by (simp_all add: ex_state_def)
  from refreshed obtain c st' where
    run: "refreshBrandToken ex_brand ?arg ex_env ex_state = (Return (Some c), st')"
    and props: "\<forall>k. k \<noteq> ''access_token'' \<and> k \<noteq> ''expires_at'' \<longrightarrow> get_prop c k = get_prop ex_creds k"
    and rest: "\<forall>g. getGlobalInstagramFacebookToken (global_read_ok ex_env) ex_state = Some g \<and> g \<noteq> [] \<longrightarrow>
                exchange_calls st' = exchange_calls ex_state @
                  [\<lparr>grant_type = ''fb_exchange_token'', client_id = appId ex_creds,
                    client_secret = appSecret ex_creds, fb_exchange_token = g\<rparr>]
              \<and> (\<forall>data t. exchange ex_env = Exchange_ok data \<and> access_token data = Some t
                      \<and> t \<noteq> [] \<and> global_write_ok ex_env
                      \<and> (\<forall>n. expires_in data = Some n \<longrightarrow>
                            n = 0 \<or> toISOString (now ex_env + n * 1000) \<noteq> None) \<longrightarrow>
                    get_prop c ''access_token'' = Some (JStr t))"
    by (elim exE conjE)
  have read: "getGlobalInstagramFacebookToken (global_read_ok ex_env) ex_state = Some ''global-old''
      \<and> ''global-old'' \<noteq> []"
    using h6 by simp
  note issued = rest[rule_format, OF read]
  note req = conjunct1[OF issued]
  note tok = conjunct2[OF issued, rule_format, OF ok]
  have calls: "exchange_calls st' = [\<lparr>grant_type = ''fb_exchange_token'', client_id = Some (JStr ''1''),
           client_secret = Some (JStr ''s''), fb_exchange_token = ''global-old''\<rparr>]"
    unfolding req
    by (simp add: ex_state_def appId_def appSecret_def ex_creds_def get_prop_def js_or_def)
  from props have cid: "get_prop c ''client_id'' = Some (JStr ''1'')"
    by (simp add: ex_creds_def get_prop_def)
  from other h7 h8 have same: "refreshBrandToken ex_brand None ex_env ex_state
       = refreshBrandToken ex_brand ?arg ex_env ex_state"
    by simp
  from h1 h2 h3 h4 h5 h6 h7 h8 locks calls cid tok same run show ?thesis
    by simp
qed

section \<open>Delivery to the publishing webhook\<close>

lemma refresh_try_keeps:
  "refresh_try env f st = (thrown, c, st') \<Longrightarrow>
   posts st' = posts st \<and> brands st' = brands st \<and> webhook_calls st' = webhook_calls st"
  by (auto simp: refresh_try_def Let_def setGlobalInstagramFacebookToken_def
      split: option.splits if_splits exchange_result.splits)

lemma refresh_locked_keeps:
  assumes "refresh_locked env f st = (c, st')"
  shows "posts st' = posts st \<and> brands st' = brands st \<and> webhook_calls st' = webhook_calls st"
proof -
  obtain thrown c1 st1 where t: "refresh_try env f st = (thrown, c1, st1)"
    by (cases "refresh_try env f st")
  from assms t have "st' = release_lock (key f) (resolveLock f) st1"
    by (simp add: refresh_locked_def)
  with refresh_try_keeps[OF t] show ?thesis
    by simp
qed

lemma refresh_keeps:
  assumes "refreshBrandToken b arg env st = (out, st')"
  shows "posts st' = posts st \<and> brands st' = brands st \<and> webhook_calls st' = webhook_calls st"
proof (cases "credsRaw b (provider_of arg)")
  case None
  with assms show ?thesis by (simp add: refreshBrandToken_def)
next
  case (Some raw)
  show ?thesis
  proof (cases "\<not> truthy (appId raw) \<or> \<not> truthy (appSecret raw)")
    case True
    with Some assms show ?thesis by (auto simp: refreshBrandToken_def)
  next
    case complete: False
    show ?thesis
    proof (cases "refreshLocks st (lockKey b (provider_of arg))")
      case (Some p)
      with \<open>credsRaw b (provider_of arg) = Some raw\<close> complete assms show ?thesis
        by (auto simp: refreshBrandToken_def split: if_splits)
    next
      case None
      let ?f = "\<lparr>creds = raw, key = lockKey b (provider_of arg),
                 resolveLock = length (promises st),
                 app_id = appId raw, app_secret = appSecret raw\<rparr>"
      obtain c s where r: "refresh_locked env ?f (register_lock (lockKey b (provider_of arg)) st) = (c, s)"
        by (cases "refresh_locked env ?f (register_lock (lockKey b (provider_of arg)) st)")
      with \<open>credsRaw b (provider_of arg) = Some raw\<close> complete None assms have "st' = s"
        by (auto simp: refreshBrandToken_def)
      with refresh_locked_keeps[OF r] show ?thesis
        by simp
    qed
  qed
qed

lemma refresh_for_form_keeps:
  assumes "refresh_for_form b provider stored env st = (out, st')"
  shows "posts st' = posts st \<and> brands st' = brands st \<and> webhook_calls st' = webhook_calls st"
proof (cases stored)
  case None
  with assms show ?thesis by (simp add: refresh_for_form_def)
next
  case (Some c)
  obtain o1 s1 where r: "refreshBrandToken b (Some provider) env st = (o1, s1)"
    by (cases "refreshBrandToken b (Some provider) env st")
  with Some assms have "st' = s1"
    by (auto simp: refresh_for_form_def split: outcome.splits option.splits)
  with refresh_keeps[OF r] show ?thesis
    by simp
qed

lemma find_post_update:
  assumes "\<And>p. post_id (change p) = post_id p"
  shows "find_post (update_post pid change st) pid = map_option change (find_post st pid)"
proof -
  have "List.find (\<lambda>p. post_id p = pid) (map (\<lambda>p. if post_id p = pid then change p else p) ps)
        = map_option change (List.find (\<lambda>p. post_id p = pid) ps)" for ps
    by (induction ps) (simp_all add: assms)
  then show ?thesis
    by (simp add: find_post_def update_post_def)
qed

lemma deliver_ok:
  assumes "find_post st postId = Some p"
      and "deliver postId form Webhook_ok st = (out, st')"
  shows "out = Return () \<and> find_post st' postId = Some (p\<lparr>status := ''sent''\<rparr>)
         \<and> webhook_calls st' = webhook_calls st @ [form]"
proof -
  have "find_post (st\<lparr>webhook_calls := webhook_calls st @ [form]\<rparr>) postId = Some p"
    using assms(1) by (simp add: find_post_def)
  then have "find_post (update_post postId (\<lambda>p. p\<lparr>status := ''sent''\<rparr>)
               (st\<lparr>webhook_calls := webhook_calls st @ [form]\<rparr>)) postId
             = Some (p\<lparr>status := ''sent''\<rparr>)"
    by (simp add: find_post_update)
  with assms(2) show ?thesis
    by (auto simp: deliver_def Let_def update_post_def)
qed

lemma deliver_failed:
  assumes "find_post st postId = Some p"
      and "deliver postId form (Webhook_failed msg) st = (out, st')"
  shows "out = Throw msg
         \<and> find_post st' postId = Some (p\<lparr>status := ''failed'', lastError := Some msg\<rparr>)
         \<and> webhook_calls st' = webhook_calls st @ [form]"
proof -
  have "find_post (st\<lparr>webhook_calls := webhook_calls st @ [form]\<rparr>) postId = Some p"
    using assms(1) by (simp add: find_post_def)
  then have "find_post (update_post postId (\<lambda>p. p\<lparr>status := ''failed'', lastError := Some msg\<rparr>)
               (st\<lparr>webhook_calls := webhook_calls st @ [form]\<rparr>)) postId
             = Some (p\<lparr>status := ''failed'', lastError := Some msg\<rparr>)"
    by (simp add: find_post_update)
  with assms(2) show ?thesis
    by (auto simp: deliver_def Let_def update_post_def)
qed

lemma send_cases:
  assumes "find_post st postId = Some p"
      and "status p = ''approved'' \<or> status p = ''scheduled''"
      and "sendPostToN8N postId env st = (out, st')"
  shows "(webhook_calls st' = webhook_calls st \<and> posts st' = posts st)
       \<or> (\<exists>form st2. posts st2 = posts st \<and> webhook_calls st2 = webhook_calls st
             \<and> form_post_id form = post_id p
             \<and> deliver postId form (webhook env) st2 = (out, st'))"
proof (cases "find_brand st (brandId p)")
  case None
  have "sendPostToN8N postId env st = (Throw ''TypeError'', st)"
    using assms(1,2) None by (auto simp: sendPostToN8N_def)
  with assms(3) show ?thesis
    by simp
next
  case (Some b)
  obtain o1 st1 where r1: "refresh_for_form b ''instagram'' (instagramCredentials b)
                             (instagram_env env) st = (o1, st1)"
    by (cases "refresh_for_form b ''instagram'' (instagramCredentials b) (instagram_env env) st")
  note k1 = refresh_for_form_keeps[OF r1]
  obtain o2 st2 where r2: "refresh_for_form b ''facebook'' (facebookCredentials b)
                             (facebook_env env) st1 = (o2, st2)"
    by (cases "refresh_for_form b ''facebook'' (facebookCredentials b) (facebook_env env) st1")
  note k2 = refresh_for_form_keeps[OF r2]
  have unf: "sendPostToN8N postId env st =
      (case o1 of
         Return igCredentials \<Rightarrow>
           (case o2 of
              Return fbCredentials \<Rightarrow>
                deliver postId
                  \<lparr>form_brand_id = brand_id b, form_post_id = post_id p,
                   form_instagram = igCredentials, form_facebook = fbCredentials,
                   form_token = getGlobalInstagramFacebookToken (token_read_ok env) st2\<rparr>
                  (webhook env) st2
            | Throw msg \<Rightarrow> (Throw msg, st2)
            | Pending \<Rightarrow> (Pending, st2))
       | Throw msg \<Rightarrow> (Throw msg, st1)
       | Pending \<Rightarrow> (Pending, st1))"
    using assms(1,2) Some r1 r2
    by (cases o1; cases o2) (auto simp: sendPostToN8N_def)
  show ?thesis
  proof (cases o1)
    case (Return ig)
    show ?thesis
    proof (cases o2)
      case (Return fb)
      let ?form = "\<lparr>form_brand_id = brand_id b, form_post_id = post_id p,
               form_instagram = ig, form_facebook = fb,
               form_token = getGlobalInstagramFacebookToken (token_read_ok env) st2\<rparr>"
      have "deliver postId ?form (webhook env) st2 = (out, st')"
        using assms(3) unf \<open>o1 = Return ig\<close> Return by simp
      moreover have "posts st2 = posts st \<and> webhook_calls st2 = webhook_calls st"
        using k1 k2 by simp
      moreover have "form_post_id ?form = post_id p"
        by simp
      ultimately show ?thesis
        by blast
    next
      case (Throw msg)
      with assms(3) unf \<open>o1 = Return ig\<close> k1 k2 show ?thesis
        by simp
    next
      case Pending
      with assms(3) unf \<open>o1 = Return ig\<close> k1 k2 show ?thesis
        by simp
    qed
  next
    case (Throw msg)
    with assms(3) unf k1 show ?thesis by simp
  next
    case Pending
    with assms(3) unf k1 show ?thesis by simp
  qed
qed

text \<open>
  Claim C7. Take an existing post whose status is approved or scheduled, and a delivery
  that reached the call of the publishing webhook. When that call succeeds, the delivery
  returns and the post has the status sent. When it fails, the post has the status failed
  with the error message in \<open>lastError\<close>, and the delivery throws that error.
\<close>

theorem send_webhook_outcome:
  assumes "find_post st postId = Some p"
      and "status p = ''approved'' \<or> status p = ''scheduled''"
      and "sendPostToN8N postId env st = (out, st')"
      and "webhook_calls st' \<noteq> webhook_calls st"
  shows "(webhook env = Webhook_ok \<longrightarrow>
            out = Return () \<and> find_post st' postId = Some (p\<lparr>status := ''sent''\<rparr>))
       \<and> (\<forall>msg. webhook env = Webhook_failed msg \<longrightarrow>
            out = Throw msg
            \<and> find_post st' postId = Some (p\<lparr>status := ''failed'', lastError := Some msg\<rparr>))"
proof -
  from send_cases[OF assms(1,2,3)] assms(4) obtain form st2 where
    st2: "posts st2 = posts st" and d: "deliver postId form (webhook env) st2 = (out, st')"
    by blast
  have f: "find_post st2 postId = Some p"
    using st2 assms(1) by (simp add: find_post_def)
  show ?thesis
  proof (cases "webhook env")
    case Webhook_ok
    with deliver_ok[OF f, of form out st'] d show ?thesis by simp
  next
    case (Webhook_failed msg)
    with deliver_failed[OF f, of form msg out st'] d show ?thesis by simp
  qed
qed

lemma ex_find_post: "find_post ex_state 3 = Some ex_post"
  by (simp add: find_post_def ex_state_def ex_posts_def ex_post_def)

lemma ex_send_calls_webhook:
  "webhook_calls (snd (sendPostToN8N 3 (ex_send_env\<lparr>webhook := result\<rparr>) ex_state))
     \<noteq> webhook_calls ex_state"
proof -
  let ?env = "ex_send_env\<lparr>webhook := result\<rparr>"
  have b: "find_brand ex_state (brandId ex_post) = Some ex_brand"
    by (simp add: find_brand_def ex_state_def ex_brand_def ex_post_def)
  have ig: "instagramCredentials ex_brand = Some ex_creds"
    and fb: "facebookCredentials ex_brand = None"
    by (simp_all add: ex_brand_def)
  obtain c s where r: "refreshBrandToken ex_brand (Some ''instagram'') ex_env ex_state = (Return (Some c), s)"
    using ex_refresh_success refresh_provider_of[of ex_brand None ex_env ex_state]
    by (simp add: provider_of_def)
  have s: "webhook_calls s = webhook_calls ex_state"
    using refresh_keeps[OF r] by simp
  have "sendPostToN8N 3 ?env ex_state =
      deliver 3 \<lparr>form_brand_id = brand_id ex_brand, form_post_id = post_id ex_post,
                 form_instagram = c, form_facebook = [],
                 form_token = getGlobalInstagramFacebookToken (token_read_ok ?env) s\<rparr>
        result s"
    by (simp add: sendPostToN8N_def ex_find_post b ig fb refresh_for_form_def r ex_send_env_def)
       (simp add: ex_post_def)
  then show ?thesis
    using s by (cases result) (simp_all add: deliver_def Let_def update_post_def)
qed

theorem send_webhook_outcome_witness:
  "find_post ex_state 3 = Some ex_post
   \<and> (status ex_post = ''approved'' \<or> status ex_post = ''scheduled'')
   \<and> webhook_calls (snd (sendPostToN8N 3 ex_send_env ex_state)) \<noteq> webhook_calls ex_state
   \<and> webhook_calls (snd (sendPostToN8N 3 (ex_send_env\<lparr>webhook := Webhook_failed ''boom''\<rparr>) ex_state))
        \<noteq> webhook_calls ex_state
   \<and> fst (sendPostToN8N 3 ex_send_env ex_state) = Return ()
   \<and> find_post (snd (sendPostToN8N 3 ex_send_env ex_state)) 3 = Some (ex_post\<lparr>status := ''sent''\<rparr>)
   \<and> fst (sendPostToN8N 3 (ex_send_env\<lparr>webhook := Webhook_failed ''boom''\<rparr>) ex_state) = Throw ''boom''
   \<and> find_post (snd (sendPostToN8N 3 (ex_send_env\<lparr>webhook := Webhook_failed ''boom''\<rparr>) ex_state)) 3
       = Some (ex_post\<lparr>status := ''failed'', lastError := Some ''boom''\<rparr>)"
proof -
  let ?ok = "sendPostToN8N 3 ex_send_env ex_state"
  let ?env = "ex_send_env\<lparr>webhook := Webhook_failed ''boom''\<rparr>"
  let ?bad = "sendPostToN8N 3 ?env ex_state"
  have st: "status ex_post = ''approved'' \<or> status ex_post = ''scheduled''"
    by (simp add: ex_post_def)
  have c1: "webhook_calls (snd ?ok) \<noteq> webhook_calls ex_state"
    using ex_send_calls_webhook[of Webhook_ok] by (simp add: ex_send_env_def)
  have c2: "webhook_calls (snd ?bad) \<noteq> webhook_calls ex_state"
    by (rule ex_send_calls_webhook)
  have r1: "?ok = (fst ?ok, snd ?ok)" and r2: "?bad = (fst ?bad, snd ?bad)"
    by simp_all
  from send_webhook_outcome[OF ex_find_post st r1 c1]
  have a: "fst ?ok = Return () \<and> find_post (snd ?ok) 3 = Some (ex_post\<lparr>status := ''sent''\<rparr>)"
    by (simp add: ex_send_env_def)
  from send_webhook_outcome[OF ex_find_post st r2 c2]
  have b: "fst ?bad = Throw ''boom''
     \<and> find_post (snd ?bad) 3 = Some (ex_post\<lparr>status := ''failed'', lastError := Some ''boom''\<rparr>)"
    by simp
  from ex_find_post st c1 c2 a b show ?thesis
    by simp
qed

text \<open>
  Claim C8. For an existing post whose status is neither approved nor scheduled, the
  delivery returns and leaves the whole state as it was: no webhook call, no refresh, no
  change to the post.
\<close>

theorem send_other_status_noop:
  "find_post st postId = Some p \<Longrightarrow> status p \<noteq> ''approved'' \<Longrightarrow> status p \<noteq> ''scheduled'' \<Longrightarrow>
   sendPostToN8N postId env st = (Return (), st)"
  by (simp add: sendPostToN8N_def)

theorem send_other_status_noop_witness:
  "find_post ex_state 4 = Some ex_draft
   \<and> status ex_draft \<noteq> ''approved'' \<and> status ex_draft \<noteq> ''scheduled''
   \<and> sendPostToN8N 4 ex_send_env ex_state = (Return (), ex_state)"
proof -
  have f: "find_post ex_state 4 = Some ex_draft"
    by (simp add: find_post_def ex_state_def ex_posts_def ex_post_def ex_draft_def)
  have a: "status ex_draft \<noteq> ''approved''" and s: "status ex_draft \<noteq> ''scheduled''"
    by (simp_all add: ex_draft_def)
  from send_other_status_noop[OF f a s, of ex_send_env] f a s show ?thesis
    by simp
qed

section \<open>The dispatch tick\<close>

lemma send_webhook_calls:
  assumes "sendPostToN8N pid env st = (out, st')"
  shows "webhook_calls st' = webhook_calls st
         \<or> (\<exists>form. webhook_calls st' = webhook_calls st @ [form] \<and> form_post_id form = pid)"
proof (cases "find_post st pid")
  case None
  with assms show ?thesis by (simp add: sendPostToN8N_def)
next
  case (Some p)
  have pid: "post_id p = pid"
    using Some by (auto simp: find_post_def find_Some_iff)
  show ?thesis
  proof (cases "status p = ''approved'' \<or> status p = ''scheduled''")
    case False
    with Some assms show ?thesis by (simp add: sendPostToN8N_def)
  next
    case True
    from send_cases[OF Some True assms] show ?thesis
    proof
      assume "webhook_calls st' = webhook_calls st \<and> posts st' = posts st"
      then show ?thesis by simp
    next
      assume "\<exists>form st2. posts st2 = posts st \<and> webhook_calls st2 = webhook_calls st
             \<and> form_post_id form = post_id p
             \<and> deliver pid form (webhook env) st2 = (out, st')"
      then obtain form st2 where
        k: "posts st2 = posts st" "webhook_calls st2 = webhook_calls st"
           "form_post_id form = post_id p"
        and d: "deliver pid form (webhook env) st2 = (out, st')"
        by blast
      have f: "find_post st2 pid = Some p"
        using k(1) Some by (simp add: find_post_def)
      have "webhook_calls st' = webhook_calls st2 @ [form]"
      proof (cases "webhook env")
        case Webhook_ok
        with deliver_ok[OF f, of form out st'] d show ?thesis by simp
      next
        case (Webhook_failed msg)
        with deliver_failed[OF f, of form msg out st'] d show ?thesis by simp
      qed
      with k pid show ?thesis by simp
    qed
  qed
qed

lemma dispatchLoop_webhook_calls:
  "dispatchLoop envs ps st = (out, st') \<Longrightarrow>
   \<exists>forms. webhook_calls st' = webhook_calls st @ forms
     \<and> form_post_id ` set forms \<subseteq> post_id ` set ps"
proof (induction ps arbitrary: st)
  case Nil
  then show ?case by simp
next
  case (Cons p ps)
  obtain o1 st1 where s: "sendPostToN8N (post_id p) (envs (post_id p)) st = (o1, st1)"
    by (cases "sendPostToN8N (post_id p) (envs (post_id p)) st")
  from send_webhook_calls[OF s] obtain fs where
    fs: "webhook_calls st1 = webhook_calls st @ fs" "form_post_id ` set fs \<subseteq> {post_id p}"
  proof
    assume "webhook_calls st1 = webhook_calls st"
    then show ?thesis by (intro that[of "[]"]) simp_all
  next
    assume "\<exists>form. webhook_calls st1 = webhook_calls st @ [form] \<and> form_post_id form = post_id p"
    then obtain form where "webhook_calls st1 = webhook_calls st @ [form]" "form_post_id form = post_id p"
      by blast
    then show ?thesis by (intro that[of "[form]"]) simp_all
  qed
  have rest: "o1 \<noteq> Pending \<Longrightarrow> dispatchLoop envs ps st1 = (out, st')"
    using Cons.prems s by (cases o1) simp_all
  show ?case
  proof (cases "o1 = Pending")
    case True
    with Cons.prems s have "st' = st1" by simp
    with fs show ?thesis
      by (intro exI[of _ fs]) auto
  next
    case False
    from Cons.IH[OF rest[OF False]] obtain forms where
      forms: "webhook_calls st' = webhook_calls st1 @ forms"
             "form_post_id ` set forms \<subseteq> post_id ` set ps"
      by blast
    have "form_post_id ` set (fs @ forms) \<subseteq> post_id ` set (p # ps)"
      using fs(2) forms(2) by auto
    moreover have "webhook_calls st' = webhook_calls st @ (fs @ forms)"
      using fs(1) forms(1) by simp
    ultimately show ?thesis
      by blast
  qed
qed

lemma refresh_unlocked:
  assumes "\<forall>k. refreshLocks st k = None" and "refreshBrandToken b arg env st = (out, st')"
  shows "out \<noteq> Pending \<and> (\<forall>k. refreshLocks st' k = None)"
proof (cases "credsRaw b (provider_of arg)")
  case None
  with assms show ?thesis by (auto simp: refreshBrandToken_def)
next
  case (Some raw)
  show ?thesis
  proof (cases "\<not> truthy (appId raw) \<or> \<not> truthy (appSecret raw)")
    case True
    with Some assms show ?thesis by (auto simp: refreshBrandToken_def)
  next
    case complete: False
    let ?k = "lockKey b (provider_of arg)"
    let ?f = "\<lparr>creds = raw, key = ?k, resolveLock = length (promises st),
               app_id = appId raw, app_secret = appSecret raw\<rparr>"
    obtain thrown c s where t: "refresh_try env ?f (register_lock ?k st) = (thrown, c, s)"
      by (cases "refresh_try env ?f (register_lock ?k st)")
    from assms(1) have free: "refreshLocks st ?k = None"
      by simp
    from Some complete free assms(2) t
    have "out \<noteq> Pending" and "st' = release_lock ?k (length (promises st)) s"
      by (auto simp: refreshBrandToken_def refresh_locked_def)
    moreover from refresh_try_keeps_locks[OF t] assms(1)
    have "\<forall>k. refreshLocks (release_lock ?k (length (promises st)) s) k = None"
      by simp
    ultimately show ?thesis
      by simp
  qed
qed

lemma refresh_for_form_unlocked:
  assumes "\<forall>k. refreshLocks st k = None"
      and "refresh_for_form b provider stored env st = (out, st')"
  shows "(\<exists>c. out = Return c) \<and> (\<forall>k. refreshLocks st' k = None)"
proof (cases stored)
  case None
  with assms show ?thesis by (auto simp: refresh_for_form_def)
next
  case (Some c)
  obtain o1 s1 where r: "refreshBrandToken b (Some provider) env st = (o1, s1)"
    by (cases "refreshBrandToken b (Some provider) env st")
  from refresh_unlocked[OF assms(1) r] Some assms(2) r show ?thesis
    by (cases o1) (auto simp: refresh_for_form_def split: option.splits)
qed

lemma send_delivers:
  assumes "find_post st pid = Some p"
      and "status p = ''approved'' \<or> status p = ''scheduled''"
      and "find_brand st (brandId p) = Some b"
      and "\<forall>k. refreshLocks st k = None"
  shows "\<exists>form st2. sendPostToN8N pid env st = deliver pid form (webhook env) st2
           \<and> form_post_id form = post_id p
           \<and> posts st2 = posts st \<and> brands st2 = brands st
           \<and> webhook_calls st2 = webhook_calls st
           \<and> (\<forall>k. refreshLocks st2 k = None)"
proof -
  obtain o1 st1 where r1: "refresh_for_form b ''instagram'' (instagramCredentials b)
                             (instagram_env env) st = (o1, st1)"
    by (cases "refresh_for_form b ''instagram'' (instagramCredentials b) (instagram_env env) st")
  from refresh_for_form_unlocked[OF assms(4) r1] obtain ig where
    o1: "o1 = Return ig" and free1: "\<forall>k. refreshLocks st1 k = None"
    by blast
  note k1 = refresh_for_form_keeps[OF r1]
  obtain o2 st2 where r2: "refresh_for_form b ''facebook'' (facebookCredentials b)
                             (facebook_env env) st1 = (o2, st2)"
    by (cases "refresh_for_form b ''facebook'' (facebookCredentials b) (facebook_env env) st1")
  from refresh_for_form_unlocked[OF free1 r2] obtain fb where
    o2: "o2 = Return fb" and free2: "\<forall>k. refreshLocks st2 k = None"
    by blast
  note k2 = refresh_for_form_keeps[OF r2]
  let ?form = "\<lparr>form_brand_id = brand_id b, form_post_id = post_id p,
               form_instagram = ig, form_facebook = fb,
               form_token = getGlobalInstagramFacebookToken (token_read_ok env) st2\<rparr>"
  have "sendPostToN8N pid env st = deliver pid ?form (webhook env) st2"
    using assms(1,2,3) r1 r2 o1 o2 by (auto simp: sendPostToN8N_def)
  moreover have "form_post_id ?form = post_id p"
    by simp
  ultimately show ?thesis
    using k1 k2 free2 by (intro exI[of _ ?form] exI[of _ st2]) simp
qed

lemma find_distinct:
  "distinct (map post_id ps) \<Longrightarrow> p \<in> set ps \<Longrightarrow>
   List.find (\<lambda>q. post_id q = post_id p) ps = Some p"
proof (induction ps)
  case Nil
  then show ?case by simp
next
  case (Cons a ps)
  then show ?case by (cases "a = p") (auto simp: image_iff)
qed

lemma find_map_other:
  assumes "\<And>r. post_id (change r) = post_id r" and "qid \<noteq> pid"
  shows "List.find (\<lambda>p. post_id p = qid) (map (\<lambda>p. if post_id p = pid then change p else p) ps)
         = List.find (\<lambda>p. post_id p = qid) ps"
  using assms by (induction ps) simp_all

lemma deliver_state:
  assumes "deliver pid form result st = (out, st')"
  shows "out \<noteq> Pending
       \<and> webhook_calls st' = webhook_calls st @ [form]
       \<and> brands st' = brands st \<and> refreshLocks st' = refreshLocks st
       \<and> posts st' = map (\<lambda>q. if post_id q = pid
                               then (case result of
                                       Webhook_ok \<Rightarrow> q\<lparr>status := ''sent''\<rparr>
                                     | Webhook_failed msg \<Rightarrow> q\<lparr>status := ''failed'', lastError := Some msg\<rparr>)
                               else q) (posts st)"
  using assms by (cases result) (auto simp: deliver_def Let_def update_post_def)

lemma dispatchLoop_delivers:
  assumes "distinct (map post_id ps)"
      and "\<forall>p \<in> set ps. find_post st (post_id p) = Some p \<and> status p = ''scheduled''
             \<and> find_brand st (brandId p) \<noteq> None"
      and "\<forall>k. refreshLocks st k = None"
  shows "\<exists>st' forms. dispatchLoop envs ps st = (Return (), st')
           \<and> webhook_calls st' = webhook_calls st @ forms
           \<and> map form_post_id forms = map post_id ps
           \<and> posts st' = map (\<lambda>q. if post_id q \<in> post_id ` set ps
                                   then (case webhook (envs (post_id q)) of
                                           Webhook_ok \<Rightarrow> q\<lparr>status := ''sent''\<rparr>
                                         | Webhook_failed msg \<Rightarrow>
                                             q\<lparr>status := ''failed'', lastError := Some msg\<rparr>)
                                   else q) (posts st)"
  using assms
proof (induction ps arbitrary: st)
  case Nil
  then show ?case by simp
next
  case (Cons p ps)
  let ?pid = "post_id p" and ?env = "envs (post_id p)"
  let ?mark = "\<lambda>result q. (case result of
                   Webhook_ok \<Rightarrow> q\<lparr>status := ''sent''\<rparr>
                 | Webhook_failed msg \<Rightarrow> q\<lparr>status := ''failed'', lastError := Some msg\<rparr>)"
  have keeps_id: "post_id (?mark result q) = post_id q" for result q
    by (cases result) simp_all
  from Cons.prems(2) obtain b where
    found: "find_post st ?pid = Some p" and sched: "status p = ''scheduled''"
    and brand: "find_brand st (brandId p) = Some b"
    by auto
  from send_delivers[OF found _ brand Cons.prems(3), of ?env] sched obtain form st2 where
    send: "sendPostToN8N ?pid ?env st = deliver ?pid form (webhook ?env) st2"
    and form: "form_post_id form = ?pid"
    and st2: "posts st2 = posts st" "brands st2 = brands st"
      "webhook_calls st2 = webhook_calls st" "\<forall>k. refreshLocks st2 k = None"
    by auto
  obtain o1 st1 where d: "deliver ?pid form (webhook ?env) st2 = (o1, st1)"
    by (cases "deliver ?pid form (webhook ?env) st2")
  from deliver_state[OF d] st2 have o1: "o1 \<noteq> Pending"
    and calls1: "webhook_calls st1 = webhook_calls st @ [form]"
    and brands1: "brands st1 = brands st" and free1: "\<forall>k. refreshLocks st1 k = None"
    and posts1: "posts st1 = map (\<lambda>q. if post_id q = ?pid then ?mark (webhook ?env) q else q) (posts st)"
    by simp_all
  have loop: "dispatchLoop envs (p # ps) st = dispatchLoop envs ps st1"
    using send d o1 by (cases o1) simp_all
  have others: "\<forall>q \<in> set ps. find_post st1 (post_id q) = Some q \<and> status q = ''scheduled''
             \<and> find_brand st1 (brandId q) \<noteq> None"
  proof
    fix q assume q: "q \<in> set ps"
    from Cons.prems(1) have "?pid \<notin> post_id ` set ps"
      by simp
    with q have ne: "post_id q \<noteq> ?pid"
      by (metis imageI)
    have "find_post st1 (post_id q) = find_post st (post_id q)"
      unfolding find_post_def posts1
      by (rule find_map_other[OF keeps_id ne])
    with q Cons.prems(2) brands1 show "find_post st1 (post_id q) = Some q \<and> status q = ''scheduled''
             \<and> find_brand st1 (brandId q) \<noteq> None"
      by (simp add: find_brand_def)
  qed
  from Cons.prems(1) have "distinct (map post_id ps)"
    by simp
  from Cons.IH[OF this others free1] obtain st' forms where
    run: "dispatchLoop envs ps st1 = (Return (), st')"
    and calls: "webhook_calls st' = webhook_calls st1 @ forms"
    and ids: "map form_post_id forms = map post_id ps"
    and posts': "posts st' = map (\<lambda>q. if post_id q \<in> post_id ` set ps
                                   then ?mark (webhook (envs (post_id q))) q else q) (posts st1)"
    by blast
  have "posts st' = map (\<lambda>q. if post_id q \<in> post_id ` set (p # ps)
                               then ?mark (webhook (envs (post_id q))) q else q) (posts st)"
    unfolding posts' posts1 map_map
  proof (rule map_cong[OF refl])
    fix q assume "q \<in> set (posts st)"
    show "((\<lambda>q. if post_id q \<in> post_id ` set ps
                   then ?mark (webhook (envs (post_id q))) q else q) \<circ>
           (\<lambda>q. if post_id q = ?pid then ?mark (webhook ?env) q else q)) q
          = (if post_id q \<in> post_id ` set (p # ps)
               then ?mark (webhook (envs (post_id q))) q else q)"
    proof (cases "post_id q = ?pid")
      case True
      moreover from Cons.prems(1) have "?pid \<notin> post_id ` set ps"
        by auto
      ultimately show ?thesis
        by (simp add: keeps_id)
    next
      case False
      then show ?thesis by simp
    qed
  qed
  moreover have "webhook_calls st' = webhook_calls st @ (form # forms)"
    using calls calls1 by simp
  moreover have "map form_post_id (form # forms) = map post_id (p # ps)"
    using form ids by simp
  ultimately show ?case
    using loop run by (intro exI[of _ st'] exI[of _ "form # forms"]) simp
qed

text \<open>
  Claim C9. Whatever state a dispatch tick starts in, the webhook calls it adds to the log
  are all for posts of the table whose status is scheduled and whose \<open>scheduleAt\<close> is at or
  before the current time. When the post ids are distinct and every post has its brand
  (the primary key and the foreign key of the tables), and no refresh is in flight at the
  tick, the tick delivers exactly those posts: it returns, whatever the webhook answers;
  the webhook calls it adds are, in the order of the table, one for each post whose
  status is scheduled and whose \<open>scheduleAt\<close> is at or before the current time; each of
  these posts is marked sent, or failed with the error message, as the webhook answered
  for it; and every other post (scheduled for a later time, without a \<open>scheduleAt\<close>, or of
  another status) is left as it was.
\<close>

theorem dispatch_selection:
  "(\<forall>out st'. dispatchTick t_now envs st = (out, st') \<longrightarrow>
      (\<exists>forms. webhook_calls st' = webhook_calls st @ forms
         \<and> (\<forall>form \<in> set forms. \<exists>p \<in> set (posts st).
                form_post_id form = post_id p \<and> status p = ''scheduled''
                \<and> (\<exists>t. scheduleAt p = Some t \<and> t \<le> t_now))))
   \<and> (distinct (map post_id (posts st))
        \<and> (\<forall>p \<in> set (posts st). find_brand st (brandId p) \<noteq> None)
        \<and> (\<forall>k. refreshLocks st k = None) \<longrightarrow>
      (\<exists>st' forms. dispatchTick t_now envs st = (Return (), st')
         \<and> webhook_calls st' = webhook_calls st @ forms
         \<and> map form_post_id forms =
             map post_id (filter (\<lambda>p. status p = ''scheduled''
                                      \<and> (\<exists>t. scheduleAt p = Some t \<and> t \<le> t_now)) (posts st))
         \<and> posts st' =
             map (\<lambda>p. if status p = ''scheduled'' \<and> (\<exists>t. scheduleAt p = Some t \<and> t \<le> t_now)
                      then (case webhook (envs (post_id p)) of
                              Webhook_ok \<Rightarrow> p\<lparr>status := ''sent''\<rparr>
                            | Webhook_failed msg \<Rightarrow>
                                p\<lparr>status := ''failed'', lastError := Some msg\<rparr>)
                      else p) (posts st)))"
proof -
  let ?due = "\<lambda>p. status p = ''scheduled'' \<and> (\<exists>t. scheduleAt p = Some t \<and> t \<le> t_now)"
  have due: "duePosts t_now st = filter ?due (posts st)"
    unfolding duePosts_def by (rule filter_cong[OF refl]) (auto split: option.splits)
  have bound: "\<exists>forms. webhook_calls st' = webhook_calls st @ forms
         \<and> (\<forall>form \<in> set forms. \<exists>p \<in> set (posts st). form_post_id form = post_id p \<and> ?due p)"
    if "dispatchTick t_now envs st = (out, st')" for out st'
  proof -
    from dispatchLoop_webhook_calls[of envs "duePosts t_now st" st out st'] that
    obtain forms where f: "webhook_calls st' = webhook_calls st @ forms"
      "form_post_id ` set forms \<subseteq> post_id ` set (duePosts t_now st)"
      by (auto simp: dispatchTick_def)
    have "\<forall>form \<in> set forms. \<exists>p \<in> set (posts st). form_post_id form = post_id p \<and> ?due p"
    proof
      fix form assume "form \<in> set forms"
      with f(2) have "form_post_id form \<in> post_id ` set (filter ?due (posts st))"
        unfolding due by blast
      then obtain p where "p \<in> set (filter ?due (posts st))" "form_post_id form = post_id p"
        by blast
      then show "\<exists>p \<in> set (posts st). form_post_id form = post_id p \<and> ?due p"
        by auto
    qed
    with f(1) show ?thesis
      by blast
  qed
  have exact: "\<exists>st' forms. dispatchTick t_now envs st = (Return (), st')
         \<and> webhook_calls st' = webhook_calls st @ forms
         \<and> map form_post_id forms = map post_id (filter ?due (posts st))
         \<and> posts st' =
             map (\<lambda>p. if ?due p
                      then (case webhook (envs (post_id p)) of
                              Webhook_ok \<Rightarrow> p\<lparr>status := ''sent''\<rparr>
                            | Webhook_failed msg \<Rightarrow>
                                p\<lparr>status := ''failed'', lastError := Some msg\<rparr>)
                      else p) (posts st)"
    if ids: "distinct (map post_id (posts st))"
      and brands: "\<forall>p \<in> set (posts st). find_brand st (brandId p) \<noteq> None"
      and free: "\<forall>k. refreshLocks st k = None"
  proof -
    have d: "distinct (map post_id (filter ?due (posts st)))"
      using ids by (rule distinct_map_filter)
    have each: "\<forall>p \<in> set (filter ?due (posts st)).
        find_post st (post_id p) = Some p \<and> status p = ''scheduled''
        \<and> find_brand st (brandId p) \<noteq> None"
      using find_distinct[OF ids] brands by (simp add: find_post_def)
    from dispatchLoop_delivers[OF d each free, of envs] obtain st' forms where
      run: "dispatchLoop envs (filter ?due (posts st)) st = (Return (), st')"
      and calls: "webhook_calls st' = webhook_calls st @ forms"
      and fids: "map form_post_id forms = map post_id (filter ?due (posts st))"
      and posts': "posts st' = map (\<lambda>q. if post_id q \<in> post_id ` set (filter ?due (posts st))
                                   then (case webhook (envs (post_id q)) of
                                           Webhook_ok \<Rightarrow> q\<lparr>status := ''sent''\<rparr>
                                         | Webhook_failed msg \<Rightarrow>
                                             q\<lparr>status := ''failed'', lastError := Some msg\<rparr>)
                                   else q) (posts st)"
      by blast
    from ids have inj: "inj_on post_id (set (posts st))"
      by (simp add: distinct_map)
    have sel: "post_id q \<in> post_id ` set (filter ?due (posts st)) \<longleftrightarrow> ?due q"
      if "q \<in> set (posts st)" for q
    proof
      assume "post_id q \<in> post_id ` set (filter ?due (posts st))"
      then obtain p where p: "p \<in> set (posts st)" "?due p" "post_id q = post_id p"
        by auto
      with inj that have "q = p"
        by (auto dest: inj_onD)
      with p show "?due q"
        by simp
    next
      assume "?due q"
      with that show "post_id q \<in> post_id ` set (filter ?due (posts st))"
        by auto
    qed
    have "posts st' =
             map (\<lambda>p. if ?due p
                      then (case webhook (envs (post_id p)) of
                              Webhook_ok \<Rightarrow> p\<lparr>status := ''sent''\<rparr>
                            | Webhook_failed msg \<Rightarrow>
                                p\<lparr>status := ''failed'', lastError := Some msg\<rparr>)
                      else p) (posts st)"
      unfolding posts' by (rule map_cong[OF refl]) (simp only: sel)
    with run calls fids show ?thesis
      unfolding dispatchTick_def due
      by (intro exI[of _ st'] exI[of _ forms]) simp
  qed
  from bound exact show ?thesis
    by blast
qed

theorem dispatch_selection_witness:
  "distinct (map post_id (posts ex_state))
   \<and> map (\<lambda>p. find_brand ex_state (brandId p)) (posts ex_state)
       = [Some ex_brand, Some ex_brand, Some ex_brand]
   \<and> (\<forall>k. refreshLocks ex_state k = None)
   \<and> fst (dispatchTick 9 ex_envs ex_state) = Return ()
   \<and> map form_post_id (webhook_calls (snd (dispatchTick 9 ex_envs ex_state))) = [3, 5]
   \<and> posts (snd (dispatchTick 9 ex_envs ex_state))
       = [ex_post\<lparr>status := ''failed'', lastError := Some ''boom''\<rparr>, ex_draft,
          ex_later\<lparr>status := ''sent''\<rparr>]"
proof -
  have ps: "posts ex_state = [ex_post, ex_draft, ex_later]"
    by (simp add: ex_state_def ex_posts_def)
  have ids: "distinct (map post_id (posts ex_state))"
    by (simp add: ps ex_post_def ex_draft_def ex_later_def)
  have brands: "\<forall>p \<in> set (posts ex_state). find_brand ex_state (brandId p) \<noteq> None"
    by (simp add: ps) (simp add: find_brand_def ex_state_def ex_brand_def
          ex_post_def ex_draft_def ex_later_def)
  have free: "\<forall>k. refreshLocks ex_state k = None"
    by (simp add: ex_locks_free)
  from dispatch_selection[of 9 ex_envs ex_state] ids brands free
  obtain st' forms where tick: "dispatchTick 9 ex_envs ex_state = (Return (), st')"
    and calls: "webhook_calls st' = webhook_calls ex_state @ forms"
    and fids: "map form_post_id forms =
             map post_id (filter (\<lambda>p. status p = ''scheduled''
                                      \<and> (\<exists>t. scheduleAt p = Some t \<and> t \<le> 9)) (posts ex_state))"
    and posts': "posts st' =
             map (\<lambda>p. if status p = ''scheduled'' \<and> (\<exists>t. scheduleAt p = Some t \<and> t \<le> 9)
                      then (case webhook (ex_envs (post_id p)) of
                              Webhook_ok \<Rightarrow> p\<lparr>status := ''sent''\<rparr>
                            | Webhook_failed msg \<Rightarrow>
                                p\<lparr>status := ''failed'', lastError := Some msg\<rparr>)
                      else p) (posts ex_state)"
    by blast
  have "map form_post_id (webhook_calls st') = map form_post_id forms"
    by (simp add: calls ex_state_def)
  also note fids
  also have "map post_id (filter (\<lambda>p. status p = ''scheduled''
                                      \<and> (\<exists>t. scheduleAt p = Some t \<and> t \<le> 9)) (posts ex_state))
             = [3, 5]"
    by (simp add: ps) (simp add: ex_post_def ex_draft_def ex_later_def)
  finally have "map form_post_id (webhook_calls st') = [3, 5]" .
  moreover have "posts st' = [ex_post\<lparr>status := ''failed'', lastError := Some ''boom''\<rparr>, ex_draft,
          ex_later\<lparr>status := ''sent''\<rparr>]"
    unfolding posts'
    by (simp add: ps) (simp add: ex_post_def ex_draft_def ex_later_def ex_envs_def ex_send_env_def)
  moreover have "map (\<lambda>p. find_brand ex_state (brandId p)) (posts ex_state)
       = [Some ex_brand, Some ex_brand, Some ex_brand]"
    by (simp add: ps) (simp add: find_brand_def ex_state_def ex_brand_def
          ex_post_def ex_draft_def ex_later_def)
  ultimately show ?thesis
    using ids free tick by simp
qed

section \<open>Calls in flight\<close>

subsection \<open>Schedules and reachable states\<close>

text \<open>
  The two readings of \<open>refreshBrandToken\<close> agree: the call run on its own is the call
  resumed, one \<open>await\<close> after the other, by the events of its environment.
\<close>

lemma refreshBrandToken_run_alone:
  "refreshBrandToken b arg env st =
     (case run_alone 4 env (call b arg st) of (t, st') \<Rightarrow> (outcome_of t, st'))"
  by (auto simp: refreshBrandToken_def call_def Let_def refresh_locked_def refresh_try_def
        numeral_eq_Suc event_of_def outcome_of_def finish_def
      split: option.splits exchange_result.splits sum.splits)

lemma step_cases:
  assumes "step allowed (ts, st) (ts', st')"
  obtains ev i t_now t' where "ts' = ts[i := t']" "allowed ev" "i < length ts"
    "enabled ev (ts ! i) st" "resume t_now ev (ts ! i) st = (t', st')"
  using assms by (auto elim: step.cases)

lemma run_schedule_steps:
  assumes "run_schedule b arg sched sys = Some sys'"
      and "\<forall>m \<in> set sched. within written allowed m"
  shows "(concurrent_step b arg written allowed)\<^sup>*\<^sup>* sys sys'"
  using assms
proof (induction sched arbitrary: sys)
  case Nil
  then show ?case by simp
next
  case (Cons m rest)
  obtain ts st where sys: "sys = (ts, st)"
    by (cases sys)
  show ?case
  proof (cases m)
    case (Resume i t_now ev)
    obtain t' st' where r: "resume t_now ev (ts ! i) st = (t', st')"
      by (cases "resume t_now ev (ts ! i) st")
    from Cons.prems(1) Resume sys r have en: "i < length ts" "enabled ev (ts ! i) st"
      and rest: "run_schedule b arg rest (ts[i := t'], st') = Some sys'"
      by (auto split: if_splits)
    from Cons.prems(2) Resume have "allowed ev"
      by simp
    with en r have "step allowed (ts, st) (ts[i := t'], st')"
      by (intro step.resumed[of allowed ev i ts st t_now t' st'])
    then have "concurrent_step b arg written allowed sys (ts[i := t'], st')"
      unfolding sys by (rule concurrent_step.resumes)
    moreover from Cons.IH[OF rest] Cons.prems(2)
    have "(concurrent_step b arg written allowed)\<^sup>*\<^sup>* (ts[i := t'], st') sys'"
      by simp
    ultimately show ?thesis
      by (rule converse_rtranclp_into_rtranclp)
  next
    case Join
    obtain t st' where c: "call b arg st = (t, st')"
      by (cases "call b arg st")
    from Cons.prems(1) Join sys c obtain p where
      held: "refreshLocks st (lockKey b (provider_of arg)) = Some p"
      and rest: "run_schedule b arg rest (ts @ [t], st') = Some sys'"
      by (auto split: option.splits)
    from held c have "concurrent_step b arg written allowed sys (ts @ [t], st')"
      unfolding sys by (rule concurrent_step.joins)
    moreover from Cons.IH[OF rest] Cons.prems(2)
    have "(concurrent_step b arg written allowed)\<^sup>*\<^sup>* (ts @ [t], st') sys'"
      by simp
    ultimately show ?thesis
      by (rule converse_rtranclp_into_rtranclp)
  next
    case (Write token)
    from Cons.prems(1) Write sys
    have rest: "run_schedule b arg rest (ts, upsert_token token st) = Some sys'"
      by simp
    from Cons.prems(2) Write have "written token"
      by simp
    then have "concurrent_step b arg written allowed sys (ts, upsert_token token st)"
      unfolding sys by (rule concurrent_step.writes)
    moreover from Cons.IH[OF rest] Cons.prems(2)
    have "(concurrent_step b arg written allowed)\<^sup>*\<^sup>* (ts, upsert_token token st) sys'"
      by simp
    ultimately show ?thesis
      by (rule converse_rtranclp_into_rtranclp)
  qed
qed

lemma launch_process:
  "process_step\<^sup>*\<^sup>* (ts, st) (ts @ fst (launch b arg n st), snd (launch b arg n st))"
proof (induction n arbitrary: ts st)
  case 0
  then show ?case by simp
next
  case (Suc n)
  obtain t st1 where c: "call b arg st = (t, st1)"
    by (cases "call b arg st")
  obtain ws st2 where l: "launch b arg n st1 = (ws, st2)"
    by (cases "launch b arg n st1")
  have "process_step (ts, st) (ts @ [t], st1)"
    using c by (rule process_step.comes_in)
  moreover from Suc[of "ts @ [t]" st1] l
  have "process_step\<^sup>*\<^sup>* (ts @ [t], st1) (ts @ t # ws, st2)"
    by simp
  ultimately show ?case
    using c l by (simp add: converse_rtranclp_into_rtranclp)
qed

lemma step_any_event:
  assumes "step allowed sys sys'"
  shows "step any_event sys sys'"
  using assms
  by (induction rule: step.induct) (auto intro: step.resumed simp: any_event_def)

lemma concurrent_process:
  assumes "(concurrent_step b arg written allowed)\<^sup>*\<^sup>* sys sys'"
  shows "process_step\<^sup>*\<^sup>* sys sys'"
  using assms
proof (induction rule: rtranclp_induct)
  case base
  then show ?case by simp
next
  case (step y z)
  from step(2) have "process_step y z"
    by (induction rule: concurrent_step.induct)
       (auto intro: process_step.goes_on process_step.comes_in process_step.writes
          step_any_event)
  with step(3) show ?case
    by simp
qed

lemma ex_race_run:
  "(case run_schedule ex_brand None ex_race (launch ex_brand None 2 ex_state) of
      None \<Rightarrow> False
    | Some (ts, st) \<Rightarrow>
        ts = [Returned (Some [(''client_id'', JStr ''1''), (''client_secret'', JStr ''s''),
                              (''access_token'', JStr ''old'')]),
              Returned (Some [(''client_id'', JStr ''1''), (''client_secret'', JStr ''s''),
                              (''access_token'', JStr ''global-old'')])]
        \<and> length (exchange_calls st) = 1)"
  by code_simp

subsection \<open>The lock is released when its call is over\<close>

lemma resume_locks:
  assumes "enabled ev t st" and "resume t_now ev t st = (t', st')"
  shows "(holds t' = holds t \<and> refreshLocks st' = refreshLocks st)
       \<or> (\<exists>k p. holds t = Some (k, p) \<and> t' \<noteq> t \<and> returned t'
             \<and> refreshLocks st' = (refreshLocks st)(k := None))"
  using assms
  by (cases "(ev, t, st)" rule: enabled.cases)
     (auto simp: finish_def setGlobalInstagramFacebookToken_def Let_def
        split: option.splits if_splits exchange_result.splits)

lemma call_locks:
  assumes "call b arg st = (t, st')"
  shows "(holds t = None \<and> refreshLocks st' = refreshLocks st)
       \<or> (\<exists>k. holds t = Some (k, length (promises st)) \<and> refreshLocks st k = None
             \<and> refreshLocks st' = (refreshLocks st)(k \<mapsto> length (promises st)))"
  using assms
  by (auto simp: call_def Let_def split: option.splits if_splits)

lemma owned_step:
  assumes "owned (ts, st)" and "step allowed (ts, st) (ts', st')"
  shows "owned (ts', st')"
proof -
  from assms(2) obtain ev i t_now t' where
    ts': "ts' = ts[i := t']" and i: "i < length ts" and en: "enabled ev (ts ! i) st"
    and res: "resume t_now ev (ts ! i) st = (t', st')"
    by (rule step_cases)
  from resume_locks[OF en res] show ?thesis
  proof
    assume same: "holds t' = holds (ts ! i) \<and> refreshLocks st' = refreshLocks st"
    show ?thesis
      unfolding owned_def
    proof (clarsimp simp: ts')
      fix k p assume "refreshLocks st' k = Some p"
      with same assms(1) obtain j where j: "j < length ts" "holds (ts ! j) = Some (k, p)"
        by (auto simp: owned_def)
      with same i have "holds (ts[i := t'] ! j) = Some (k, p)"
        by (cases "j = i") simp_all
      with j(1) show "\<exists>j<length ts. holds (ts[i := t'] ! j) = Some (k, p)"
        by blast
    qed
  next
    assume "\<exists>k p. holds (ts ! i) = Some (k, p) \<and> t' \<noteq> ts ! i \<and> returned t'
             \<and> refreshLocks st' = (refreshLocks st)(k := None)"
    then obtain k0 p0 where rel: "holds (ts ! i) = Some (k0, p0)"
        "refreshLocks st' = (refreshLocks st)(k0 := None)"
      by blast
    show ?thesis
      unfolding owned_def
    proof (clarsimp simp: ts')
      fix k p assume l: "refreshLocks st' k = Some p"
      with rel(2) have "k \<noteq> k0" and "refreshLocks st k = Some p"
        by (auto split: if_splits)
      with assms(1) obtain j where j: "j < length ts" "holds (ts ! j) = Some (k, p)"
        by (auto simp: owned_def)
      with rel(1) \<open>k \<noteq> k0\<close> have "j \<noteq> i"
        by auto
      with j have "holds (ts[i := t'] ! j) = Some (k, p)"
        by simp
      with j(1) show "\<exists>j<length ts. holds (ts[i := t'] ! j) = Some (k, p)"
        by blast
    qed
  qed
qed

lemma owned_comes_in:
  assumes "owned (ts, st)" and "call b arg st = (t, st')"
  shows "owned (ts @ [t], st')"
proof -
  from call_locks[OF assms(2)] show ?thesis
  proof
    assume same: "holds t = None \<and> refreshLocks st' = refreshLocks st"
    show ?thesis
      unfolding owned_def
    proof clarsimp
      fix k p assume "refreshLocks st' k = Some p"
      with same assms(1) obtain j where "j < length ts" "holds (ts ! j) = Some (k, p)"
        by (auto simp: owned_def)
      then show "\<exists>i<Suc (length ts). holds ((ts @ [t]) ! i) = Some (k, p)"
        by (intro exI[of _ j]) (simp add: nth_append)
    qed
  next
    assume "\<exists>k. holds t = Some (k, length (promises st)) \<and> refreshLocks st k = None
             \<and> refreshLocks st' = (refreshLocks st)(k \<mapsto> length (promises st))"
    then obtain k0 where new: "holds t = Some (k0, length (promises st))"
        "refreshLocks st' = (refreshLocks st)(k0 \<mapsto> length (promises st))"
      by blast
    show ?thesis
      unfolding owned_def
    proof clarsimp
      fix k p assume l: "refreshLocks st' k = Some p"
      show "\<exists>i<Suc (length ts). holds ((ts @ [t]) ! i) = Some (k, p)"
      proof (cases "k = k0")
        case True
        with l new show ?thesis
          by (intro exI[of _ "length ts"]) simp
      next
        case False
        with l new(2) have "refreshLocks st k = Some p"
          by simp
        with assms(1) obtain j where "j < length ts" "holds (ts ! j) = Some (k, p)"
          by (auto simp: owned_def)
        then show ?thesis
          by (intro exI[of _ j]) (simp add: nth_append)
      qed
    qed
  qed
qed

lemma owned_process_step:
  assumes "owned sys" and "process_step sys sys'"
  shows "owned sys'"
  using assms(2,1)
proof (induction rule: process_step.induct)
  case (goes_on ts st ts' st')
  then show ?case by (blast intro: owned_step)
next
  case (comes_in b arg st t st' ts)
  then show ?case by (blast intro: owned_comes_in)
next
  case (writes ts st token)
  then show ?case by (simp add: owned_def)
qed

lemma owned_reachable:
  assumes "process_step\<^sup>*\<^sup>* sys sys'" and "owned sys"
  shows "owned sys'"
  using assms by (induction rule: rtranclp_induct) (auto intro: owned_process_step)

text \<open>
  Claim C5. In a process that starts with an empty lock object, whatever calls come in
  and however they are resumed, every entry of the lock object is held by a call in
  flight: one that has registered the lock and has not reached the end of its \<open>finally\<close>
  block. So a call for a key that no call in flight holds does not take the wait path.
  And the step in which a call that holds the lock returns, whatever event ends its last
  \<open>await\<close> (the token absent, the exchange answered or failed, the write refused),
  leaves no entry for its key.
\<close>

theorem lock_released_on_completion:
  assumes "\<forall>k. refreshLocks st0 k = None"
      and "process_step\<^sup>*\<^sup>* ([], st0) (ts, st)"
  shows "(\<forall>k p. refreshLocks st k = Some p \<longrightarrow> (\<exists>i < length ts. holds (ts ! i) = Some (k, p)))
       \<and> (\<forall>b arg. (\<forall>i < length ts. \<forall>p. holds (ts ! i) \<noteq> Some (lockKey b (provider_of arg), p))
             \<longrightarrow> (\<forall>p c. fst (call b arg st) \<noteq> Await_lock p c))
       \<and> (\<forall>i ev t_now k p r st'. i < length ts \<and> holds (ts ! i) = Some (k, p)
             \<and> enabled ev (ts ! i) st \<and> resume t_now ev (ts ! i) st = (Returned r, st')
             \<longrightarrow> refreshLocks st' k = None)"
proof -
  have "owned ([], st0)"
    using assms(1) by (simp add: owned_def)
  from owned_reachable[OF assms(2) this]
  have inv: "\<forall>k p. refreshLocks st k = Some p \<longrightarrow> (\<exists>i < length ts. holds (ts ! i) = Some (k, p))"
    by (simp add: owned_def)
  have wait: "\<forall>p c. fst (call b arg st) \<noteq> Await_lock p c"
    if "\<forall>i < length ts. \<forall>p. holds (ts ! i) \<noteq> Some (lockKey b (provider_of arg), p)" for b arg
  proof -
    from inv that have "refreshLocks st (lockKey b (provider_of arg)) = None"
      by (cases "refreshLocks st (lockKey b (provider_of arg))") auto
    then show ?thesis
      by (auto simp: call_def Let_def split: option.splits)
  qed
  have freed: "refreshLocks st' k = None"
    if "holds (ts ! i) = Some (k, p)" "enabled ev (ts ! i) st"
       "resume t_now ev (ts ! i) st = (Returned r, st')" for i ev t_now k p r st'
    using resume_locks[OF that(2,3)] that(1) by auto
  from inv wait freed show ?thesis
    by blast
qed

lemma ex_failing_run:
  "(case run_schedule ex_brand None ex_failing (launch ex_brand None 1 ex_state) of
      None \<Rightarrow> False
    | Some (ts, st) \<Rightarrow>
        length ts = 1
        \<and> holds (ts ! 0) = Some (''7_instagram'', 0)
        \<and> refreshLocks st ''7_instagram'' = Some 0
        \<and> enabled (Token_read True) (ts ! 0) st
        \<and> fst (resume 0 (Token_read True) (ts ! 0) st)
            = Returned (Some [(''client_id'', JStr ''1''), (''client_secret'', JStr ''s''),
                              (''access_token'', JStr ''global-old'')]))"
  by code_simp

theorem lock_released_on_completion_witness:
  "(\<forall>k. refreshLocks ex_state k = None)
   \<and> (\<exists>ts st. process_step\<^sup>*\<^sup>* ([], ex_state) (ts, st)
         \<and> refreshLocks st ''7_instagram'' = Some 0
         \<and> (\<exists>i < length ts. holds (ts ! i) = Some (''7_instagram'', 0))
         \<and> refreshLocks (snd (resume 0 (Token_read True) (ts ! 0) st)) ''7_instagram'' = None)"
proof -
  have free: "\<forall>k. refreshLocks ex_state k = None"
    by (simp add: ex_locks_free)
  from ex_failing_run obtain ts st where
    run: "run_schedule ex_brand None ex_failing (launch ex_brand None 1 ex_state) = Some (ts, st)"
    and len: "length ts = 1"
    and held: "holds (ts ! 0) = Some (''7_instagram'', 0)"
    and lock: "refreshLocks st ''7_instagram'' = Some 0"
    and en: "enabled (Token_read True) (ts ! 0) st"
    and ret: "fst (resume 0 (Token_read True) (ts ! 0) st)
            = Returned (Some [(''client_id'', JStr ''1''), (''client_secret'', JStr ''s''),
                              (''access_token'', JStr ''global-old'')])"
    by (auto split: option.splits)
  have "\<forall>m \<in> set ex_failing. within any_token any_event m"
    by (simp add: ex_failing_def any_event_def)
  from concurrent_process[OF run_schedule_steps[OF run this]]
    launch_process[of "[]" ex_state ex_brand None 1]
  have reach: "process_step\<^sup>*\<^sup>* ([], ex_state) (ts, st)"
    by (cases "launch ex_brand None 1 ex_state") auto
  note inst = lock_released_on_completion[OF free reach]
  from conjunct1[OF inst, rule_format, OF lock]
  have holder: "\<exists>i < length ts. holds (ts ! i) = Some (''7_instagram'', 0)" .
  have res: "resume 0 (Token_read True) (ts ! 0) st
      = (Returned (Some [(''client_id'', JStr ''1''), (''client_secret'', JStr ''s''),
                              (''access_token'', JStr ''global-old'')]),
         snd (resume 0 (Token_read True) (ts ! 0) st))"
    using ret by (metis prod.collapse)
  from conjunct2[OF conjunct2[OF inst], rule_format, of 0 "''7_instagram''" 0 "Token_read True" 0]
    len held en res
  have "refreshLocks (snd (resume 0 (Token_read True) (ts ! 0) st)) ''7_instagram'' = None"
    by simp
  with free reach lock holder show ?thesis
    by blast
qed

subsection \<open>Calls launched together\<close>

lemma resume_decreases:
  "enabled ev t st \<Longrightarrow> remaining (fst (resume t_now ev t st)) < remaining t"
  by (cases "(ev, t, st)" rule: enabled.cases)
     (auto simp: finish_def setGlobalInstagramFacebookToken_def Let_def
        split: option.splits if_splits exchange_result.splits)

lemma remaining_update:
  assumes "i < length ts" and "remaining t' < remaining (ts ! i)"
  shows "sum_list (map remaining (ts[i := t'])) < sum_list (map remaining ts)"
proof -
  have "sum_list (map remaining (ts[i := t'])) + remaining (ts ! i)
        = sum_list (map remaining ts) + remaining t'"
    using assms(1)
  proof (induction ts arbitrary: i)
    case Nil
    then show ?case by simp
  next
    case (Cons a ts)
    then show ?case by (cases i) auto
  qed
  with assms(2) show ?thesis
    by linarith
qed

lemma step_decreases:
  assumes "step allowed (ts, st) (ts', st')"
  shows "sum_list (map remaining ts') < sum_list (map remaining ts)"
proof -
  from assms obtain ev i t_now t' where
    ts': "ts' = ts[i := t']" and i: "i < length ts" and en: "enabled ev (ts ! i) st"
    and res: "resume t_now ev (ts ! i) st = (t', st')"
    by (rule step_cases)
  from resume_decreases[OF en, of t_now] res have "remaining t' < remaining (ts ! i)"
    by simp
  from remaining_update[OF i this] ts' show ?thesis
    by simp
qed

lemma holder_enabled:
  "holds t = Some kp \<Longrightarrow> \<exists>ev. enabled ev t st"
  by (cases t) (auto intro: exI[of _ "Token_read True"] exI[of _ "Token_written True"]
      exI[of _ "Exchange_done (Exchange_failed [])"])

lemma resume_holder:
  assumes "holds t = Some (k, p)" and "enabled ev t st" and "resume t_now ev t st = (t', st')"
  shows "(holds t' = Some (k, p) \<and> promises st' = promises st
            \<and> refreshLocks st' = refreshLocks st
            \<and> length (exchange_calls st') + issued t = length (exchange_calls st) + issued t')
       \<or> ((\<exists>c. t' = Returned (Some c)) \<and> promises st' = (promises st)[p := True]
            \<and> refreshLocks st' = (refreshLocks st)(k := None)
            \<and> exchange_calls st' = exchange_calls st)"
  using assms
  by (cases "(ev, t, st)" rule: enabled.cases)
     (auto simp: finish_def setGlobalInstagramFacebookToken_def Let_def
        split: option.splits if_splits exchange_result.splits)

lemma issued_le: "issued t \<le> 1"
  by (cases t) simp_all

lemma resume_follower:
  assumes "follower raw p w" and "enabled ev w st" and "resume t_now ev w st = (w', st')"
  shows "st' = st \<and> follower raw p w'
       \<and> (reliable ev \<longrightarrow> agrees raw st w')"
  using assms
  by (cases "(ev, w, st)" rule: enabled.cases)
     (auto simp: follower_def expected_token_def)

lemma follower_enabled:
  assumes "follower raw p w" and "\<not> returned w" and "settled st p"
  shows "\<exists>ev. enabled ev w st"
  using assms
  by (auto simp: follower_def intro: exI[of _ Lock_released] exI[of _ "Token_read True"])


lemma call_follower:
  assumes "credsRaw b (provider_of arg) = Some raw"
      and "truthy (appId raw)" and "truthy (appSecret raw)"
      and "refreshLocks st (lockKey b (provider_of arg)) = Some p"
  shows "call b arg st = (Await_lock p raw, st)"
  using assms by (simp add: call_def Let_def)

lemma launch_followers:
  assumes "credsRaw b (provider_of arg) = Some raw"
      and "truthy (appId raw)" and "truthy (appSecret raw)"
      and "refreshLocks st (lockKey b (provider_of arg)) = Some p"
  shows "launch b arg n st = (replicate n (Await_lock p raw), st)"
  by (induction n) (simp_all add: call_follower[OF assms])

lemma launch_Suc:
  assumes "credsRaw b (provider_of arg) = Some raw"
      and "truthy (appId raw)" and "truthy (appSecret raw)"
      and "refreshLocks st (lockKey b (provider_of arg)) = None"
  shows "launch b arg (Suc n) st =
     (Await_global_token
        \<lparr>creds = raw, key = lockKey b (provider_of arg), resolveLock = length (promises st),
         app_id = appId raw, app_secret = appSecret raw\<rparr>
      # replicate n (Await_lock (length (promises st)) raw),
      register_lock (lockKey b (provider_of arg)) st)"
proof -
  have "refreshLocks (register_lock (lockKey b (provider_of arg)) st) (lockKey b (provider_of arg))
        = Some (length (promises st))"
    by simp
  from launch_followers[OF assms(1,2,3) this, of n] call_holder[OF assms] show ?thesis
    by simp
qed

lemma launched_init:
  assumes "credsRaw b (provider_of arg) = Some raw"
      and "truthy (appId raw)" and "truthy (appSecret raw)"
      and "refreshLocks st (lockKey b (provider_of arg)) = None"
  shows "launched (lockKey b (provider_of arg)) (length (promises st)) raw
           (length (exchange_calls st)) (launch b arg n st)"
proof (cases n)
  case 0
  with assms(4) show ?thesis by (simp add: launched_def)
next
  case (Suc m)
  show ?thesis
    unfolding Suc launch_Suc[OF assms] launched_def
    by (simp add: settled_def nth_append)
qed

lemma launched_step:
  assumes "launched k p raw base (ts, st)" and "step allowed (ts, st) (ts', st')"
  shows "launched k p raw base (ts', st')"
proof -
  from assms(2) obtain ev i t_now t' where
    ts': "ts' = ts[i := t']" and i: "i < length ts" and en: "enabled ev (ts ! i) st"
    and res: "resume t_now ev (ts ! i) st = (t', st')"
    by (rule step_cases)
  from assms(1) consider
    (leading) t rest where "ts = t # rest" "holds t = Some (k, p)" "p < length (promises st)"
      "\<not> settled st p" "\<forall>w \<in> set rest. w = Await_lock p raw"
      "length (exchange_calls st) = base + issued t" "refreshLocks st k = Some p"
    | (followers) "settled st p" "\<forall>w \<in> set ts. follower raw p w"
      "length (exchange_calls st) \<le> base + 1" "refreshLocks st k = None"
    | (none) "ts = []"
    by (auto simp: launched_def)
  then show ?thesis
  proof cases
    case leading
    have "i = 0"
    proof (rule ccontr)
      assume "i \<noteq> 0"
      with i leading(1,5) have "ts ! i = Await_lock p raw"
        by (cases i) auto
      with en leading(4) show False
        by (cases ev) simp_all
    qed
    with res leading(1) have r: "resume t_now ev t st = (t', st')"
      by simp
    from en \<open>i = 0\<close> leading(1) have e: "enabled ev t st"
      by simp
    from \<open>i = 0\<close> ts' leading(1) have shape: "ts' = t' # rest"
      by simp
    from resume_holder[OF leading(2) e r] show ?thesis
    proof
      assume "holds t' = Some (k, p) \<and> promises st' = promises st
            \<and> refreshLocks st' = refreshLocks st
            \<and> length (exchange_calls st') + issued t = length (exchange_calls st) + issued t'"
      with leading shape show ?thesis
        by (auto simp: launched_def settled_def)
    next
      assume fin: "(\<exists>c. t' = Returned (Some c)) \<and> promises st' = (promises st)[p := True]
            \<and> refreshLocks st' = (refreshLocks st)(k := None)
            \<and> exchange_calls st' = exchange_calls st"
      then have "settled st' p"
        using leading(3) by (simp add: settled_def)
      moreover have "\<forall>w \<in> set ts'. follower raw p w"
        using fin leading(5) shape by (auto simp: follower_def)
      moreover have "length (exchange_calls st') \<le> base + 1"
        using fin leading(6) issued_le[of t] by simp
      moreover have "refreshLocks st' k = None"
        using fin by simp
      ultimately show ?thesis
        by (simp add: launched_def)
    qed
  next
    case followers
    from followers(2) i have f: "follower raw p (ts ! i)"
      by simp
    from resume_follower[OF f en res] have same: "st' = st" and f': "follower raw p t'"
      by simp_all
    have "\<forall>w \<in> set ts'. follower raw p w"
      using followers(2) f' ts' by (auto dest: set_update_subset_insert[THEN subsetD])
    with followers same show ?thesis
      by (simp add: launched_def)
  next
    case none
    with i show ?thesis by simp
  qed
qed

lemma launched_joins:
  assumes "launched k p raw base (ts, st)"
      and "credsRaw b (provider_of arg) = Some raw"
      and "truthy (appId raw)" and "truthy (appSecret raw)"
      and "k = lockKey b (provider_of arg)"
      and "refreshLocks st k = Some q" and "call b arg st = (t, st')"
  shows "launched k p raw base (ts @ [t], st') \<and> t = Await_lock p raw \<and> st' = st"
proof -
  from assms(1,6) obtain t0 rest where lead: "ts = t0 # rest" "holds t0 = Some (k, p)"
      "refreshLocks st k = Some p" "p < length (promises st)" "\<not> settled st p"
      "\<forall>w \<in> set rest. w = Await_lock p raw"
      "length (exchange_calls st) = base + issued t0"
    by (auto simp: launched_def)
  from call_follower[OF assms(2,3,4)] lead(3) assms(5,7)
  have t: "t = Await_lock p raw" and st': "st' = st"
    by simp_all
  with lead show ?thesis
    by (auto simp: launched_def)
qed

lemma launched_writes:
  assumes "launched k p raw base (ts, st)"
  shows "launched k p raw base (ts, upsert_token token st)"
  using assms by (simp add: launched_def settled_def)

lemma launched_steps:
  assumes "(concurrent_step b arg written allowed)\<^sup>*\<^sup>* sys sys'"
      and "credsRaw b (provider_of arg) = Some raw"
      and "truthy (appId raw)" and "truthy (appSecret raw)"
      and "launched (lockKey b (provider_of arg)) p raw base sys"
  shows "launched (lockKey b (provider_of arg)) p raw base sys'"
  using assms(1,5)
proof (induction rule: rtranclp_induct)
  case base
  then show ?case by simp
next
  case (step y z)
  from step(2) step(3)[OF step(4)] show ?case
  proof (induction rule: concurrent_step.induct)
    case (resumes ts st ts' st')
    then show ?case by (blast intro: launched_step)
  next
    case (joins st q t st' ts)
    from launched_joins[OF joins(3) assms(2,3,4) refl joins(1,2)] show ?case
      by blast
  next
    case (writes token ts st)
    then show ?case by (blast intro: launched_writes)
  qed
qed

lemma getGlobal_other_fields [simp]:
  "getGlobalInstagramFacebookToken ok (release_lock k p st) = getGlobalInstagramFacebookToken ok st"
  "getGlobalInstagramFacebookToken ok (register_lock k st) = getGlobalInstagramFacebookToken ok st"
  "getGlobalInstagramFacebookToken ok (issue_exchange f g st) = getGlobalInstagramFacebookToken ok st"
  by (simp_all add: getGlobalInstagramFacebookToken_def)

lemma expected_token_other_fields [simp]:
  "expected_token raw (release_lock k p st) = expected_token raw st"
  "expected_token raw (register_lock k st) = expected_token raw st"
  "expected_token raw (issue_exchange f g st) = expected_token raw st"
  by (simp_all add: expected_token_def)

lemma single_row_other_fields [simp]:
  "single_row (release_lock k p st) = single_row st"
  "single_row (register_lock k st) = single_row st"
  "single_row (issue_exchange f g st) = single_row st"
  by (simp_all add: single_row_def)

lemma get_access_token_stamp:
  "t \<noteq> [] \<Longrightarrow> get_prop (stamp_token (Some t) c) ''access_token'' = Some (JStr t)"
  by (simp add: stamp_token_def get_set_prop)

lemma agrees_written:
  assumes "token_rows s = [(1, tok)]" and "tok \<noteq> []"
  shows "single_row s"
    and "agrees raw s (Returned (Some (set_prop ''access_token'' (JStr tok) raw)))"
    and "agrees raw s (Returned (Some (set_prop ''expires_at'' v
                                     (set_prop ''access_token'' (JStr tok) raw))))"
    and "agrees raw s (Await_cur_token (f\<lparr>creds := set_prop ''access_token'' (JStr tok) raw\<rparr>))"
proof -
  have read: "getGlobalInstagramFacebookToken True s = Some tok"
    using assms(1) by (simp add: getGlobalInstagramFacebookToken_def)
  have exp: "expected_token raw s = Some (JStr tok)"
    using assms(2) by (simp add: expected_token_def read get_access_token_stamp)
  show "single_row s"
    using assms(1) by (simp add: single_row_def)
  show "agrees raw s (Returned (Some (set_prop ''access_token'' (JStr tok) raw)))"
    by (simp add: exp get_set_prop)
  show "agrees raw s (Returned (Some (set_prop ''expires_at'' v
                                     (set_prop ''access_token'' (JStr tok) raw))))"
    by (simp add: exp get_set_prop)
  show "agrees raw s (Await_cur_token (f\<lparr>creds := set_prop ''access_token'' (JStr tok) raw\<rparr>))"
    using assms(2) by (simp add: exp read get_access_token_stamp)
qed


lemma agrees_global_token:
  assumes "single_row st" and "creds f = raw"
      and "resume t_now (Token_read True) (Await_global_token f) st = (t', st')"
  shows "single_row st' \<and> agrees raw st' t'"
proof (cases "getGlobalInstagramFacebookToken True st")
  case None
  with assms show ?thesis
    by (auto simp: finish_def expected_token_def stamp_token_def)
next
  case (Some g)
  then have "token_rows st \<noteq> []"
    by (auto simp: getGlobalInstagramFacebookToken_def)
  with Some assms show ?thesis
    by (auto simp: finish_def expected_token_def stamp_token_def split: if_splits)
qed

lemma agrees_exchange:
  assumes "single_row st" and "creds f = raw" and "token_rows st \<noteq> []"
      and "reliable (Exchange_done r)"
      and "resume t_now (Exchange_done r) (Await_exchange f) st = (t', st')"
  shows "single_row st' \<and> agrees raw st' t'"
proof (cases r)
  case (Exchange_failed msg)
  with assms show ?thesis
    by (auto simp: expected_token_def)
next
  case (Exchange_ok data)
  with assms(4) obtain tok where "access_token data = Some tok" "tok \<noteq> []"
    by (cases "access_token data") auto
  with Exchange_ok assms show ?thesis
    by auto
qed

lemma agrees_set_token:
  assumes "single_row st" and "creds f = raw" and "token_rows st \<noteq> []" and "tok \<noteq> []"
      and "resume t_now (Token_written True) (Await_set_token f tok e) st = (t', st')"
  shows "single_row st' \<and> agrees raw st' t'"
proof -
  from assms(1,3) obtain g where rows: "token_rows st = [(1, g)]"
    by (auto simp: single_row_def)
  have rows': "token_rows (upsert_token tok st) = [(1, tok)]"
    using rows by (rule upsert_single)
  let ?creds1 = "set_prop ''access_token'' (JStr tok) raw"
  from assms(5,2)
  have shape: "(t' = Returned (Some ?creds1)
                  \<or> (\<exists>v. t' = Returned (Some (set_prop ''expires_at'' v ?creds1)))
                  \<or> t' = Await_cur_token (f\<lparr>creds := ?creds1\<rparr>))
               \<and> token_rows st' = token_rows (upsert_token tok st)"
    by (auto simp: setGlobalInstagramFacebookToken_def Let_def finish_def
        split: option.splits if_splits)
  with rows' have r: "token_rows st' = [(1, tok)]"
    by simp
  from agrees_written[OF r assms(4)] shape show ?thesis
    by auto
qed

lemma agrees_cur_token:
  assumes "single_row st" and "agrees raw st (Await_cur_token f)"
      and "resume t_now (Token_read True) (Await_cur_token f) st = (t', st')"
  shows "single_row st' \<and> agrees raw st' t'"
  using assms by (auto simp: finish_def)

lemma resume_agrees:
  assumes "holds t = Some (k, p)" and "enabled ev t st" and "reliable ev"
      and "single_row st" and "agrees raw st t"
      and "resume t_now ev t st = (t', st')"
  shows "single_row st' \<and> agrees raw st' t'"
proof (cases t)
  case (Await_global_token f)
  with assms(2) obtain ok where ev: "ev = Token_read ok"
    by (cases ev) simp_all
  with assms(3) have "ev = Token_read True" by simp
  with assms(4,5,6) Await_global_token show ?thesis
    by (intro agrees_global_token[of st f raw t_now t' st']) simp_all
next
  case (Await_exchange f)
  with assms(2) obtain r where ev: "ev = Exchange_done r"
    by (cases ev) simp_all
  with assms(3,4,5,6) Await_exchange show ?thesis
    by (intro agrees_exchange[of st f raw r t_now t' st']) simp_all
next
  case (Await_set_token f tok e)
  with assms(2) obtain ok where ev: "ev = Token_written ok"
    by (cases ev) simp_all
  with assms(3) have "ev = Token_written True" by simp
  with assms(4,5,6) Await_set_token show ?thesis
    by (intro agrees_set_token[of st f raw tok t_now e t' st']) simp_all
next
  case (Await_cur_token f)
  with assms(2) obtain ok where ev: "ev = Token_read ok"
    by (cases ev) simp_all
  with assms(3) have "ev = Token_read True" by simp
  with assms(4,5,6) Await_cur_token show ?thesis
    by (intro agrees_cur_token[of st raw f t_now t' st']) simp_all
next
  case (Await_lock q c)
  with assms(1) show ?thesis by simp
next
  case (Await_token_after c)
  with assms(1) show ?thesis by simp
next
  case (Returned r)
  with assms(1) show ?thesis by simp
qed

lemma agreed_step:
  assumes "launched k p raw base (ts, st)" and "agreed raw (ts, st)"
      and "step reliable (ts, st) (ts', st')"
  shows "agreed raw (ts', st')"
proof -
  from assms(3) obtain ev i t_now t' where
    ts': "ts' = ts[i := t']" and rel: "reliable ev" and i: "i < length ts"
    and en: "enabled ev (ts ! i) st" and res: "resume t_now ev (ts ! i) st = (t', st')"
    by (rule step_cases)
  from assms(2) have sr: "single_row st" and ag: "\<forall>w \<in> set ts. agrees raw st w"
    by (simp_all add: agreed_def)
  from assms(1) consider
    (leading) t rest where "ts = t # rest" "holds t = Some (k, p)"
      "\<not> settled st p" "\<forall>w \<in> set rest. w = Await_lock p raw"
    | (followers) "settled st p" "\<forall>w \<in> set ts. follower raw p w"
    | (none) "ts = []"
    by (auto simp: launched_def)
  then show ?thesis
  proof cases
    case leading
    have "i = 0"
    proof (rule ccontr)
      assume "i \<noteq> 0"
      with i leading(1,4) have "ts ! i = Await_lock p raw"
        by (cases i) auto
      with en leading(3) show False
        by (cases ev) simp_all
    qed
    with res en leading(1) have r: "resume t_now ev t st = (t', st')" and e: "enabled ev t st"
      by simp_all
    from ag leading(1) have "agrees raw st t"
      by simp
    from resume_agrees[OF leading(2) e rel sr this r]
    have "single_row st'" and "agrees raw st' t'"
      by simp_all
    moreover from \<open>i = 0\<close> ts' leading(1) have "ts' = t' # rest"
      by simp
    moreover from leading(4) have "\<forall>w \<in> set rest. agrees raw st' w"
      by auto
    ultimately show ?thesis
      by (simp add: agreed_def)
  next
    case followers
    from followers(2) i have f: "follower raw p (ts ! i)"
      by simp
    from resume_follower[OF f en res] rel have same: "st' = st" and a: "agrees raw st t'"
      by simp_all
    have "\<forall>w \<in> set ts'. agrees raw st w"
      using ag a ts' by (auto dest: set_update_subset_insert[THEN subsetD])
    with sr same show ?thesis
      by (simp add: agreed_def)
  next
    case none
    with i show ?thesis by simp
  qed
qed

lemma agreed_steps:
  assumes "(concurrent_step b arg no_token reliable)\<^sup>*\<^sup>* sys sys'"
      and "credsRaw b (provider_of arg) = Some raw"
      and "truthy (appId raw)" and "truthy (appSecret raw)"
      and "launched (lockKey b (provider_of arg)) p raw base sys" and "agreed raw sys"
  shows "launched (lockKey b (provider_of arg)) p raw base sys' \<and> agreed raw sys'"
  using assms(1,5,6)
proof (induction rule: rtranclp_induct)
  case base
  then show ?case by simp
next
  case (step y z)
  from step(3)[OF step(4,5)] have inv: "launched (lockKey b (provider_of arg)) p raw base y"
    and ag: "agreed raw y"
    by simp_all
  from step(2) inv ag show ?case
  proof (induction rule: concurrent_step.induct)
    case (resumes ts st ts' st')
    then show ?case by (blast intro: launched_step agreed_step)
  next
    case (joins st q t st' ts)
    from launched_joins[OF joins(3) assms(2,3,4) refl joins(1,2)] joins(4) show ?case
      by (auto simp: agreed_def)
  next
    case (writes token ts st)
    then show ?case by (simp add: no_token_def)
  qed
qed

lemma agreed_init:
  assumes "credsRaw b (provider_of arg) = Some raw"
      and "truthy (appId raw)" and "truthy (appSecret raw)"
      and "refreshLocks st (lockKey b (provider_of arg)) = None"
      and "single_row st"
  shows "agreed raw (launch b arg n st)"
proof (cases n)
  case 0
  with assms(5) show ?thesis by (simp add: agreed_def)
next
  case (Suc m)
  show ?thesis
    unfolding Suc launch_Suc[OF assms(1,2,3,4)] agreed_def
    using assms(5) by simp
qed

lemma launched_progress:
  assumes "launched k p raw base (ts, st)" and "t \<in> set ts" and "\<not> returned t"
  shows "\<exists>sys'. step any_event (ts, st) sys'"
proof -
  from assms(1) consider
    (leading) t0 rest where "ts = t0 # rest" "holds t0 = Some (k, p)"
    | (followers) "settled st p" "\<forall>w \<in> set ts. follower raw p w"
    | (none) "ts = []"
    by (auto simp: launched_def)
  then show ?thesis
  proof cases
    case leading
    from holder_enabled[OF leading(2), of st] obtain ev where "enabled ev (ts ! 0) st"
      using leading(1) by auto
    then have "step any_event (ts, st)
        (ts[0 := fst (resume 0 ev (ts ! 0) st)], snd (resume 0 ev (ts ! 0) st))"
      using leading(1) by (intro step.resumed[of _ ev _ _ _ 0]) (simp_all add: any_event_def)
    then show ?thesis
      by blast
  next
    case followers
    from assms(2) obtain i where i: "i < length ts" "ts ! i = t"
      by (auto simp: in_set_conv_nth)
    from followers(2) assms(2) have "follower raw p t"
      by simp
    from follower_enabled[OF this assms(3) followers(1)] obtain ev where "enabled ev (ts ! i) st"
      using i by auto
    then have "step any_event (ts, st)
        (ts[i := fst (resume 0 ev (ts ! i) st)], snd (resume 0 ev (ts ! i) st))"
      using i by (intro step.resumed[of _ ev _ _ _ 0]) (simp_all add: any_event_def)
    then show ?thesis
      by blast
  next
    case none
    with assms(2) show ?thesis by simp
  qed
qed

lemma launched_returned:
  assumes "launched k p raw base (ts, st)" and "Returned r \<in> set ts"
  shows "r \<noteq> None"
proof -
  from assms(1) consider
    (leading) t0 rest where "ts = t0 # rest" "holds t0 = Some (k, p)"
      "\<forall>w \<in> set rest. w = Await_lock p raw"
    | (followers) "\<forall>w \<in> set ts. follower raw p w"
    | (none) "ts = []"
    by (auto simp: launched_def)
  then show ?thesis
  proof cases
    case leading
    with assms(2) show ?thesis by auto
  next
    case followers
    with assms(2) show ?thesis by (auto simp: follower_def)
  next
    case none
    with assms(2) show ?thesis by simp
  qed
qed

lemma launched_exchanges:
  assumes "launched k p raw base (ts, st)"
  shows "length (exchange_calls st) \<le> Suc base"
  using assms issued_le by (auto simp: launched_def intro: le_trans[OF _ add_left_mono])


lemma ex_overwritten_run:
  "(case run_schedule ex_brand None ex_overwritten (launch ex_brand None 2 ex_state) of
      None \<Rightarrow> False
    | Some (ts, st) \<Rightarrow>
        ts = [Returned (Some [(''client_id'', JStr ''1''), (''client_secret'', JStr ''s''),
                              (''access_token'', JStr ''global-new'')]),
              Returned (Some [(''client_id'', JStr ''1''), (''client_secret'', JStr ''s''),
                              (''access_token'', JStr ''other'')])]
        \<and> length (exchange_calls st) = 1
        \<and> token_rows st = [(1, ''other'')])"
  by code_simp

text \<open>
  A write of another request between two returns shows in the results. Everything works
  for two calls launched together: the first writes the new token and returns it; another
  request then writes its own token, and the second call, resumed after that, returns
  the token of the other request.
\<close>

lemma foreign_write_changes_token:
  "\<exists>ts st c1 c2.
     (concurrent_step ex_brand None any_token reliable)\<^sup>*\<^sup>* (launch ex_brand None 2 ex_state) (ts, st)
     \<and> ts = [Returned (Some c1), Returned (Some c2)]
     \<and> length (exchange_calls st) = 1
     \<and> get_prop c1 ''access_token'' = Some (JStr ''global-new'')
     \<and> get_prop c2 ''access_token'' = Some (JStr ''other'')"
proof -
  let ?c1 = "[(''client_id'', JStr ''1''), (''client_secret'', JStr ''s''),
              (''access_token'', JStr ''global-new'')]"
  let ?c2 = "[(''client_id'', JStr ''1''), (''client_secret'', JStr ''s''),
              (''access_token'', JStr ''other'')]"
  from ex_overwritten_run obtain st where
    run: "run_schedule ex_brand None ex_overwritten (launch ex_brand None 2 ex_state)
            = Some ([Returned (Some ?c1), Returned (Some ?c2)], st)"
    and one: "length (exchange_calls st) = 1"
    by (auto split: option.splits)
  have "\<forall>m \<in> set ex_overwritten. within any_token reliable m"
    by (simp add: ex_overwritten_def any_token_def)
  from run_schedule_steps[OF run this]
  have "(concurrent_step ex_brand None any_token reliable)\<^sup>*\<^sup>* (launch ex_brand None 2 ex_state)
          ([Returned (Some ?c1), Returned (Some ?c2)], st)" .
  moreover have "get_prop ?c1 ''access_token'' = Some (JStr ''global-new'')"
    and "get_prop ?c2 ''access_token'' = Some (JStr ''other'')"
    by (simp_all add: get_prop_def)
  ultimately show ?thesis
    using one by blast
qed

text \<open>
  Claim C1 as it stands fails on its last part, even when no other request touches the
  global token. Two calls are launched together for a brand whose stored \<open>access_token\<close>
  is \<open>old\<close>, the store holding \<open>global-old\<close>. The exchange answers without an
  \<open>access_token\<close>: the first call returns its copy unchanged, and the second, resumed
  after it, stamps the global token on its copy. One exchange request was issued and
  both calls have returned, with different tokens.
\<close>

theorem concurrent_refresh_counterexample:
  "\<exists>ts st c1 c2.
     (concurrent_step ex_brand None no_token any_event)\<^sup>*\<^sup>* (launch ex_brand None 2 ex_state) (ts, st)
     \<and> ts = [Returned (Some c1), Returned (Some c2)]
     \<and> length (exchange_calls st) = 1
     \<and> get_prop c1 ''access_token'' = Some (JStr ''old'')
     \<and> get_prop c2 ''access_token'' = Some (JStr ''global-old'')"
proof -
  let ?c1 = "[(''client_id'', JStr ''1''), (''client_secret'', JStr ''s''),
              (''access_token'', JStr ''old'')]"
  let ?c2 = "[(''client_id'', JStr ''1''), (''client_secret'', JStr ''s''),
              (''access_token'', JStr ''global-old'')]"
  from ex_race_run obtain st where
    run: "run_schedule ex_brand None ex_race (launch ex_brand None 2 ex_state)
            = Some ([Returned (Some ?c1), Returned (Some ?c2)], st)"
    and one: "length (exchange_calls st) = 1"
    by (auto split: option.splits)
  have "\<forall>m \<in> set ex_race. within no_token any_event m"
    by (simp add: ex_race_def any_event_def)
  from run_schedule_steps[OF run this]
  have "(concurrent_step ex_brand None no_token any_event)\<^sup>*\<^sup>* (launch ex_brand None 2 ex_state)
          ([Returned (Some ?c1), Returned (Some ?c2)], st)" .
  moreover have "get_prop ?c1 ''access_token'' = Some (JStr ''old'')"
    and "get_prop ?c2 ''access_token'' = Some (JStr ''global-old'')"
    by (simp_all add: get_prop_def)
  ultimately show ?thesis
    using one by blast
qed

text \<open>
  Claim C1, amended. Take the calls for one brand and provider that run together: \<open>n\<close>
  calls launched together, no refresh being in flight for the lock key, and any number of
  further calls that come in while the refresh is in flight; the credentials hold an app
  id and an app secret. Whatever the environment does, whatever other requests write to
  the global token meanwhile, and in whatever order the calls are resumed: at most one
  exchange request is issued; a call that has returned has returned an object, not
  \<open>null\<close>; as long as a call has not returned, some call can be resumed; and resuming a
  call brings the calls nearer to their return. When the token table holds at most the
  row with id 1, its reads and writes go through, the exchange fails or answers with a
  non-empty \<open>access_token\<close>, and no other request writes the global token while the calls
  run, all the objects returned carry the same \<open>access_token\<close>.
\<close>

theorem concurrent_refresh:
  assumes "credsRaw b (provider_of arg) = Some raw"
      and "truthy (appId raw)" and "truthy (appSecret raw)"
      and "refreshLocks st0 (lockKey b (provider_of arg)) = None"
  shows "(\<forall>ts st. (concurrent_step b arg any_token any_event)\<^sup>*\<^sup>* (launch b arg n st0) (ts, st) \<longrightarrow>
            length (exchange_calls st) \<le> Suc (length (exchange_calls st0))
          \<and> (\<forall>r. Returned r \<in> set ts \<longrightarrow> r \<noteq> None)
          \<and> ((\<exists>t \<in> set ts. \<not> returned t) \<longrightarrow> (\<exists>sys'. step any_event (ts, st) sys'))
          \<and> (\<forall>ts' st'. step any_event (ts, st) (ts', st') \<longrightarrow>
                sum_list (map remaining ts') < sum_list (map remaining ts)))
       \<and> (single_row st0 \<longrightarrow>
            (\<forall>ts st. (concurrent_step b arg no_token reliable)\<^sup>*\<^sup>* (launch b arg n st0) (ts, st) \<longrightarrow>
               (\<forall>c1 c2. Returned (Some c1) \<in> set ts \<and> Returned (Some c2) \<in> set ts \<longrightarrow>
                  get_prop c1 ''access_token'' = get_prop c2 ''access_token'')))"
proof -
  let ?k = "lockKey b (provider_of arg)" and ?p = "length (promises st0)"
  let ?base = "length (exchange_calls st0)"
  note init = launched_init[OF assms, of n]
  have any: "length (exchange_calls st) \<le> Suc ?base
          \<and> (\<forall>r. Returned r \<in> set ts \<longrightarrow> r \<noteq> None)
          \<and> ((\<exists>t \<in> set ts. \<not> returned t) \<longrightarrow> (\<exists>sys'. step any_event (ts, st) sys'))
          \<and> (\<forall>ts' st'. step any_event (ts, st) (ts', st') \<longrightarrow>
                sum_list (map remaining ts') < sum_list (map remaining ts))"
    if run: "(concurrent_step b arg any_token any_event)\<^sup>*\<^sup>* (launch b arg n st0) (ts, st)"
    for ts st
  proof -
    from launched_steps[OF run assms(1,2,3) init] have inv: "launched ?k ?p raw ?base (ts, st)" .
    have "length (exchange_calls st) \<le> Suc ?base"
      using inv by (rule launched_exchanges)
    moreover have "\<forall>r. Returned r \<in> set ts \<longrightarrow> r \<noteq> None"
      using launched_returned[OF inv] by blast
    moreover have "(\<exists>t \<in> set ts. \<not> returned t) \<longrightarrow> (\<exists>sys'. step any_event (ts, st) sys')"
      using launched_progress[OF inv] by blast
    moreover have "\<forall>ts' st'. step any_event (ts, st) (ts', st') \<longrightarrow>
                sum_list (map remaining ts') < sum_list (map remaining ts)"
      using step_decreases by blast
    ultimately show ?thesis
      by blast
  qed
  have same: "get_prop c1 ''access_token'' = get_prop c2 ''access_token''"
    if sr: "single_row st0"
      and run: "(concurrent_step b arg no_token reliable)\<^sup>*\<^sup>* (launch b arg n st0) (ts, st)"
      and r: "Returned (Some c1) \<in> set ts" "Returned (Some c2) \<in> set ts" for ts st c1 c2
  proof -
    from agreed_steps[OF run assms(1,2,3) init agreed_init[OF assms sr]]
    have "agreed raw (ts, st)"
      by simp
    with r have "agrees raw st (Returned (Some c1))" "agrees raw st (Returned (Some c2))"
      by (auto simp: agreed_def)
    then show ?thesis
      by simp
  qed
  from any same show ?thesis
    by blast
qed

lemma ex_smooth_run:
  "(case run_schedule ex_brand None ex_smooth (launch ex_brand None 1 ex_state) of
      None \<Rightarrow> False
    | Some (ts, st) \<Rightarrow>
        ts = [Returned (Some [(''client_id'', JStr ''1''), (''client_secret'', JStr ''s''),
                              (''access_token'', JStr ''global-new''),
                              (''expires_at'', JStr ''1970-01-01T01:00:00.000Z'')]),
              Returned (Some [(''client_id'', JStr ''1''), (''client_secret'', JStr ''s''),
                              (''access_token'', JStr ''global-new'')])]
        \<and> length (exchange_calls st) = 1)"
  by code_simp

lemma ex_single_row: "single_row ex_state"
  by (simp add: single_row_def ex_state_def)

theorem concurrent_refresh_witness:
  "credsRaw ex_brand (provider_of None) = Some ex_creds
   \<and> truthy (appId ex_creds) \<and> truthy (appSecret ex_creds)
   \<and> refreshLocks ex_state (lockKey ex_brand (provider_of None)) = None
   \<and> single_row ex_state
   \<and> (\<exists>ts st.
         (concurrent_step ex_brand None any_token any_event)\<^sup>*\<^sup>* (launch ex_brand None 2 ex_state) (ts, st)
       \<and> token_rows st = [(1, ''other'')]
       \<and> length ts = 2
       \<and> length (exchange_calls st) \<le> Suc (length (exchange_calls ex_state)))
   \<and> (\<exists>ts st c1 c2.
         (concurrent_step ex_brand None no_token reliable)\<^sup>*\<^sup>* (launch ex_brand None 1 ex_state) (ts, st)
       \<and> ts = [Returned (Some c1), Returned (Some c2)]
       \<and> get_prop c1 ''access_token'' = get_prop c2 ''access_token''
       \<and> get_prop c2 ''access_token'' = Some (JStr ''global-new''))"
proof -
  let ?c1 = "[(''client_id'', JStr ''1''), (''client_secret'', JStr ''s''),
              (''access_token'', JStr ''global-new''),
              (''expires_at'', JStr ''1970-01-01T01:00:00.000Z'')]"
  let ?c2 = "[(''client_id'', JStr ''1''), (''client_secret'', JStr ''s''),
              (''access_token'', JStr ''global-new'')]"
  have raw: "credsRaw ex_brand (provider_of None) = Some ex_creds"
    by (simp add: ex_credsRaw provider_of_def)
  note free = ex_locks_free[of "lockKey ex_brand (provider_of None)"]
  from ex_overwritten_run obtain ts0 st0 where
    run0: "run_schedule ex_brand None ex_overwritten (launch ex_brand None 2 ex_state)
            = Some (ts0, st0)"
    and rows0: "token_rows st0 = [(1, ''other'')]" and len0: "length ts0 = 2"
    by (auto split: option.splits)
  have "\<forall>m \<in> set ex_overwritten. within any_token any_event m"
    by (simp add: ex_overwritten_def any_token_def any_event_def)
  from run_schedule_steps[OF run0 this]
  have any: "(concurrent_step ex_brand None any_token any_event)\<^sup>*\<^sup>*
               (launch ex_brand None 2 ex_state) (ts0, st0)" .
  from ex_smooth_run obtain st where
    run: "run_schedule ex_brand None ex_smooth (launch ex_brand None 1 ex_state)
            = Some ([Returned (Some ?c1), Returned (Some ?c2)], st)"
    by (auto split: option.splits)
  have "\<forall>m \<in> set ex_smooth. within no_token reliable m"
    by (simp add: ex_smooth_def)
  from run_schedule_steps[OF run this]
  have rel: "(concurrent_step ex_brand None no_token reliable)\<^sup>*\<^sup>* (launch ex_brand None 1 ex_state)
          ([Returned (Some ?c1), Returned (Some ?c2)], st)" .
  note two = concurrent_refresh[OF raw conjunct1[OF ex_complete] conjunct2[OF ex_complete] free,
      of 2]
  note one = concurrent_refresh[OF raw conjunct1[OF ex_complete] conjunct2[OF ex_complete] free,
      of 1]
  from conjunct1[OF two, rule_format, OF any]
  have count: "length (exchange_calls st0) \<le> Suc (length (exchange_calls ex_state))"
    by simp
  from conjunct2[OF one, rule_format, OF ex_single_row rel, of ?c1 ?c2]
  have "get_prop ?c1 ''access_token'' = get_prop ?c2 ''access_token''"
    by simp
  moreover have "get_prop ?c2 ''access_token'' = Some (JStr ''global-new'')"
    by (simp add: get_prop_def)
  ultimately have closed: "\<exists>ts st c1 c2.
         (concurrent_step ex_brand None no_token reliable)\<^sup>*\<^sup>* (launch ex_brand None 1 ex_state) (ts, st)
       \<and> ts = [Returned (Some c1), Returned (Some c2)]
       \<and> get_prop c1 ''access_token'' = get_prop c2 ''access_token''
       \<and> get_prop c2 ''access_token'' = Some (JStr ''global-new'')"
    using rel by blast
  from any rows0 len0 count have "\<exists>ts st.
         (concurrent_step ex_brand None any_token any_event)\<^sup>*\<^sup>* (launch ex_brand None 2 ex_state) (ts, st)
       \<and> token_rows st = [(1, ''other'')]
       \<and> length ts = 2
       \<and> length (exchange_calls st) \<le> Suc (length (exchange_calls ex_state))"
    by blast
  with closed raw ex_complete free ex_single_row show ?thesis
    by blast
qed

end
